theory Spec2Isabelle
  imports Complex_Main "HOL-Library.Multiset" "HOL-Library.Sublist"
begin

section \<open>Data model\<close>

text \<open>
  A task id is a number or a string (\<open>id: string|number\<close>). JavaScript strings are
  modelled as \<open>string\<close>, one \<open>char\<close> per code unit, so the model covers strings whose code
  units are below 256. A JavaScript number is a \<open>real\<close>: every finite double is one, and
  \<open>Math.floor\<close>, \<open>Math.max\<close>, \<open>Math.min\<close> and the sign of a difference are exact on
  doubles. A product or a sum whose value is used is rounded to the nearest double
  (\<open>to_double\<close> below); the program has one, in the id of a new task. \<open>NaN\<close> and the
  infinities exist only in the types that name them (\<open>number\<close> for the result of a
  comparator, \<open>parsed\<close> for the result of \<open>parseFloat\<close>).
\<close>

datatype ident = NumId int | StrId string

text \<open>
  The \<open>taskData\<close> object handed to \<open>addNewTask\<close> and the \<open>data\<close> object handed to
  \<open>updateTask\<close>: every key may be absent (\<open>None\<close>).
\<close>

record task_data =
  td_id :: "ident option"
  td_title :: "string option"
  td_details :: "string option"
  td_labels :: "string list option"
  td_priority :: "string option"
  td_rating :: "real option"
  td_starred :: "bool option"
  td_status :: "string option"
  td_createdAt :: "string option"
  td_dueDate :: "string option"
  td_priorityColor :: "string option"

text \<open>
  A stored task. \<open>labels\<close> and \<open>rating\<close> may be missing on a task (the projection guards
  both with \<open>task.labels &&\<close> and \<open>task.rating || 0\<close>), so they are options.
\<close>

record task =
  task_id :: ident
  title :: string
  details :: string
  labels :: "string list option"
  priority :: string
  rating :: "real option"
  starred :: bool
  status :: string
  createdAt :: string
  dueDate :: string
  priorityColor :: string

definition no_data :: task_data where
  "no_data = \<lparr>td_id = None, td_title = None, td_details = None, td_labels = None,
     td_priority = None, td_rating = None, td_starred = None, td_status = None,
     td_createdAt = None, td_dueDate = None, td_priorityColor = None\<rparr>"

section \<open>useTaskManagement: constructing a task\<close>

text \<open>\<open>x || d\<close> on an optional string: the empty string and \<open>undefined\<close> are falsy.\<close>

definition or_string :: "string option \<Rightarrow> string \<Rightarrow> string" where
  "or_string x d = (case x of None \<Rightarrow> d | Some s \<Rightarrow> if s = [] then d else s)"

text \<open>\<open>x || d\<close> on an optional number: \<open>0\<close> and \<open>undefined\<close> are falsy.\<close>

definition or_number :: "real option \<Rightarrow> real \<Rightarrow> real" where
  "or_number x d = (case x of None \<Rightarrow> d | Some r \<Rightarrow> if r = 0 then d else r)"

text \<open>\<open>x || d\<close> on an optional array: every array is truthy.\<close>

definition or_array :: "'a list option \<Rightarrow> 'a list \<Rightarrow> 'a list" where
  "or_array x d = (case x of None \<Rightarrow> d | Some xs \<Rightarrow> xs)"

definition or_bool :: "bool option \<Rightarrow> bool \<Rightarrow> bool" where
  "or_bool x d = (case x of None \<Rightarrow> d | Some b \<Rightarrow> if b then b else d)"

definition getPriorityColor :: "string \<Rightarrow> string" where
  "getPriorityColor p =
     (if p = ''Critical'' then ''#8b1538''
      else if p = ''High'' then ''#dc2626''
      else if p = ''Medium'' then ''#f97316''
      else if p = ''Low'' then ''#eab308''
      else ''#f97316'')"

text \<open>
  The object spread \<open>...taskData\<close> that closes the literal: every key present in
  \<open>taskData\<close> overrides the value written before it.
\<close>

definition spread :: "task_data \<Rightarrow> task \<Rightarrow> task" where
  "spread td t =
     \<lparr>task_id = (case td_id td of Some v \<Rightarrow> v | None \<Rightarrow> task_id t),
      title = (case td_title td of Some v \<Rightarrow> v | None \<Rightarrow> title t),
      details = (case td_details td of Some v \<Rightarrow> v | None \<Rightarrow> details t),
      labels = (case td_labels td of Some v \<Rightarrow> Some v | None \<Rightarrow> labels t),
      priority = (case td_priority td of Some v \<Rightarrow> v | None \<Rightarrow> priority t),
      rating = (case td_rating td of Some v \<Rightarrow> Some v | None \<Rightarrow> rating t),
      starred = (case td_starred td of Some v \<Rightarrow> v | None \<Rightarrow> starred t),
      status = (case td_status td of Some v \<Rightarrow> v | None \<Rightarrow> status t),
      createdAt = (case td_createdAt td of Some v \<Rightarrow> v | None \<Rightarrow> createdAt t),
      dueDate = (case td_dueDate td of Some v \<Rightarrow> v | None \<Rightarrow> dueDate t),
      priorityColor = (case td_priorityColor td of Some v \<Rightarrow> v | None \<Rightarrow> priorityColor t)\<rparr>"

subsection \<open>Double arithmetic\<close>

text \<open>
  JavaScript computes \<open>*\<close> and \<open>+\<close> on doubles: the exact result is rounded to the nearest
  double, and a result halfway between two doubles goes to the one with the even
  significand. \<open>round_even\<close> is that rounding to an integer.
\<close>

definition round_even :: "real \<Rightarrow> int" where
  "round_even y =
     (let f = \<lfloor>y\<rfloor>; d = y - of_int f
      in if d < 1 / 2 then f
         else if d > 1 / 2 then f + 1
         else if even f then f else f + 1)"

text \<open>
  The distance between neighbouring doubles around \<open>x\<close>: a double has a significand of 53
  bits, so the distance is 2 to the power of the exponent of \<open>x\<close> less 52, and the
  exponent is not below -1022 (the subnormal doubles).
\<close>

definition ulp :: "real \<Rightarrow> real" where
  "ulp x = 2 powi (max \<lfloor>log 2 \<bar>x\<bar>\<rfloor> (- 1022) - 52)"

text \<open>
  The double nearest to a real number. Overflow to an infinity is left out: no number
  computed below is as large as 2 to the power 1024.
\<close>

definition to_double :: "real \<Rightarrow> real" where
  "to_double x = (if x = 0 then 0 else ulp x * of_int (round_even (x / ulp x)))"

definition is_double :: "real \<Rightarrow> bool" where
  "is_double x = (to_double x = x)"

text \<open>
  \<open>Math.floor(1000 + Math.random() * 9000)\<close>, with the double \<open>r\<close> drawn by
  \<open>Math.random()\<close> as an argument: the product is rounded to a double, then the sum is,
  and \<open>Math.floor\<close> of a double is exact.
\<close>

definition generateId :: "real \<Rightarrow> int" where
  "generateId r = \<lfloor>to_double (1000 + to_double (r * 9000))\<rfloor>"

text \<open>
  The object literal \<open>newTask\<close> of \<open>addNewTask\<close>. \<open>r\<close> is the value of \<open>Math.random()\<close>
  and \<open>now\<close> the value of \<open>new Date().toISOString()\<close>.
\<close>

definition newTask :: "real \<Rightarrow> string \<Rightarrow> task_data \<Rightarrow> task" where
  "newTask r now taskData =
     spread taskData
       \<lparr>task_id = NumId (generateId r),
        title = or_string (td_title taskData) ''New Task'',
        details = or_string (td_details taskData) '''',
        labels = Some (or_array (td_labels taskData) []),
        priority = or_string (td_priority taskData) ''Medium'',
        rating = Some (or_number (td_rating taskData) (88 / 10)),
        starred = or_bool (td_starred taskData) False,
        status = or_string (td_status taskData) '''',
        createdAt = now,
        dueDate = or_string (td_dueDate taskData) '''',
        priorityColor = getPriorityColor (or_string (td_priority taskData) ''Medium'')\<rparr>"

section \<open>JavaScript strings\<close>

text \<open>
  \<open>String.prototype.toLowerCase\<close> on code units below 256: the letters A to Z and the
  Latin-1 capitals (0xC0 to 0xDE without the multiplication sign 0xD7) move up by 32,
  which sets bit 5; every other code unit stays.
\<close>

definition lower_char :: "char \<Rightarrow> char" where
  "lower_char c =
     (let n = (of_char c :: nat)
      in if (65 \<le> n \<and> n \<le> 90) \<or> (192 \<le> n \<and> n \<le> 222 \<and> n \<noteq> 215)
         then (case c of Char b0 b1 b2 b3 b4 b5 b6 b7 \<Rightarrow> Char b0 b1 b2 b3 b4 True b6 b7)
         else c)"

definition toLowerCase :: "string \<Rightarrow> string" where
  "toLowerCase s = map lower_char s"

text \<open>\<open>hay.includes(needle)\<close>: the needle occurs at some position of the hay.\<close>

fun includes_str :: "string \<Rightarrow> string \<Rightarrow> bool" where
  "includes_str [] n = (n = [])"
| "includes_str (c # cs) n = (prefix n (c # cs) \<or> includes_str cs n)"

section \<open>Array.prototype.sort\<close>

text \<open>
  A JavaScript number that may be \<open>NaN\<close>: \<open>None\<close> is \<open>NaN\<close>. A subtraction with a
  \<open>NaN\<close> or \<open>undefined\<close> operand is \<open>NaN\<close>.
\<close>

type_synonym number = "real option"

definition minus_num :: "number \<Rightarrow> number \<Rightarrow> number" where
  "minus_num a b = (case a of None \<Rightarrow> None | Some x \<Rightarrow> (case b of None \<Rightarrow> None | Some y \<Rightarrow> Some (x - y)))"

text \<open>
  ECMAScript's \<open>SortCompare\<close>: the comparator's result, with \<open>NaN\<close> read as \<open>+0\<close>.
\<close>

definition sortCompare :: "('a \<Rightarrow> 'a \<Rightarrow> number) \<Rightarrow> 'a \<Rightarrow> 'a \<Rightarrow> real" where
  "sortCompare comparefn x y = (case comparefn x y of None \<Rightarrow> 0 | Some v \<Rightarrow> v)"

text \<open>
  \<open>Array.prototype.sort(comparefn)\<close> as V8 (Chrome, Node) runs it on the elements of the
  array. Its TimSort takes the whole array as one run when the array has fewer than 64
  elements: \<open>CountAndMakeRun\<close> finds the run the array starts with (reversed when it is
  strictly descending), and \<open>BinaryInsertionSort\<close> inserts every further element into
  the sorted front by binary search. For a consistent comparator this is the stable sort
  the standard requires of every engine. For a comparator that is not consistent the
  standard leaves the order to the engine, and this is the order V8 gives. Arrays of 64
  elements or more are cut by V8 into several such runs, which it merges; the model
  sorts them as it sorts short ones, which is the same result for a consistent
  comparator.
\<close>

text \<open>
  The loop of \<open>CountAndMakeRun\<close>: how many of the elements after \<open>previousElement\<close>
  continue the run.
\<close>

fun run_more :: "bool \<Rightarrow> ('a \<Rightarrow> 'a \<Rightarrow> number) \<Rightarrow> 'a \<Rightarrow> 'a list \<Rightarrow> nat" where
  "run_more isDescending comparefn previousElement [] = 0"
| "run_more isDescending comparefn previousElement (currentElement # rest) =
     (let order = sortCompare comparefn currentElement previousElement
      in if (if isDescending then order \<ge> 0 else order < 0) then 0
         else Suc (run_more isDescending comparefn currentElement rest))"

text \<open>
  The binary search of \<open>BinaryInsertionSort\<close>: where \<open>pivot\<close> goes between \<open>left\<close> and
  \<open>right\<close> of the sorted front.
\<close>

function insertion_point ::
  "('a \<Rightarrow> 'a \<Rightarrow> number) \<Rightarrow> 'a \<Rightarrow> 'a list \<Rightarrow> nat \<Rightarrow> nat \<Rightarrow> nat" where
  "insertion_point comparefn pivot xs left right =
     (if left < right then
        (let mid = left + (right - left) div 2
         in if sortCompare comparefn pivot (xs ! mid) < 0
            then insertion_point comparefn pivot xs left mid
            else insertion_point comparefn pivot xs (mid + 1) right)
      else left)"
  by pat_completeness auto
termination
  by (relation "measure (\<lambda>(comparefn, pivot, xs, left, right). right - left)") auto

declare insertion_point.simps [simp del]

definition binary_insert :: "('a \<Rightarrow> 'a \<Rightarrow> number) \<Rightarrow> 'a list \<Rightarrow> 'a \<Rightarrow> 'a list" where
  "binary_insert comparefn front pivot =
     (let left = insertion_point comparefn pivot front 0 (length front)
      in take left front @ pivot # drop left front)"

definition array_sort :: "('a \<Rightarrow> 'a \<Rightarrow> number) \<Rightarrow> 'a list \<Rightarrow> 'a list" where
  "array_sort comparefn xs =
     (case xs of
        elementHigh # elementLow # rest \<Rightarrow>
          (let isDescending = (sortCompare comparefn elementLow elementHigh < 0);
               runLength = 2 + run_more isDescending comparefn elementLow rest;
               run = (if isDescending then rev (take runLength xs) else take runLength xs)
           in foldl (binary_insert comparefn) run (drop runLength xs))
      | _ \<Rightarrow> xs)"

text \<open>
  ECMAScript's consistent comparator for a set of values: equality under the comparator
  is reflexive, symmetric and transitive, and so are \<open><\<close> and \<open>>\<close> transitive.
\<close>

definition consistent :: "('a \<Rightarrow> 'a \<Rightarrow> number) \<Rightarrow> 'a set \<Rightarrow> bool" where
  "consistent comparefn S =
     (\<forall>a \<in> S. \<forall>b \<in> S. \<forall>d \<in> S.
        sortCompare comparefn a a = 0 \<and>
        (sortCompare comparefn a b = 0 \<longrightarrow> sortCompare comparefn b a = 0) \<and>
        (sortCompare comparefn a b = 0 \<and> sortCompare comparefn b d = 0 \<longrightarrow>
           sortCompare comparefn a d = 0) \<and>
        (sortCompare comparefn a b < 0 \<and> sortCompare comparefn b d < 0 \<longrightarrow>
           sortCompare comparefn a d < 0) \<and>
        (sortCompare comparefn a b > 0 \<and> sortCompare comparefn b d > 0 \<longrightarrow>
           sortCompare comparefn a d > 0))"

section \<open>The heap of arrays\<close>

text \<open>
  Arrays are objects with identity: an address is an index into the heap, and the heap
  holds the content of every array allocated so far. Allocation takes the next free
  address. The task objects inside the arrays are not copied by any of the operations
  below and none of them writes to a task, so an array's content is a list of task
  values.
\<close>

type_synonym addr = nat
type_synonym heap = "task list list"

definition alloc :: "heap \<Rightarrow> task list \<Rightarrow> addr \<times> heap" where
  "alloc h xs = (length h, h @ [xs])"

text \<open>\<open>arr.filter(pred)\<close> allocates a new array and leaves \<open>arr\<close> as it is.\<close>

definition array_filter :: "(task \<Rightarrow> bool) \<Rightarrow> heap \<Rightarrow> addr \<Rightarrow> addr \<times> heap" where
  "array_filter pred h a = alloc h (filter pred (h ! a))"

text \<open>\<open>arr.sort(comparefn)\<close> sorts the array at its address, in place.\<close>

definition sort_in_place :: "(task \<Rightarrow> task \<Rightarrow> number) \<Rightarrow> heap \<Rightarrow> addr \<Rightarrow> heap" where
  "sort_in_place comparefn h a = h[a := array_sort comparefn (h ! a)]"

section \<open>useTaskManagement: the projected view\<close>

datatype label_filter = NoLabel | OneLabel string | ManyLabels "string list"

text \<open>
  The filter slice of the store. \<open>f_label\<close> is \<open>null\<close>, one label id or an array of label
  ids; \<open>f_priority\<close> is \<open>null\<close> or a string.
\<close>

record filters =
  f_search :: string
  f_label :: label_filter
  f_priority :: "string option"
  f_sort :: string

text \<open>
  Two built-ins of the engine are parameters of the model: \<open>parseDate s\<close> is the time value
  of \<open>new Date(s)\<close> (\<open>NaN\<close> for an invalid date), and \<open>localeCompare a b\<close> is
  \<open>a.localeCompare(b)\<close>.
\<close>

record env =
  parseDate :: "string \<Rightarrow> number"
  localeCompare :: "string \<Rightarrow> string \<Rightarrow> real"

definition matchesSearch :: "string \<Rightarrow> task \<Rightarrow> bool" where
  "matchesSearch s task =
     (includes_str (toLowerCase (title task)) (toLowerCase s) \<or>
      includes_str (toLowerCase (details task)) (toLowerCase s))"

text \<open>\<open>task.labels && filters.label.some(labelId => task.labels.includes(labelId))\<close>\<close>

definition matchesLabels :: "string list \<Rightarrow> task \<Rightarrow> bool" where
  "matchesLabels ls task =
     (case labels task of None \<Rightarrow> False
      | Some taskLabels \<Rightarrow> list_ex (\<lambda>labelId. labelId \<in> set taskLabels) ls)"

text \<open>
  Modelled from the spec: \<open>filterTasksByLabel\<close> of \<open>utils/filterTasksByLabel\<close>, which is
  not among the sources. For a single label id the spec keeps the tasks whose labels
  contain it.
\<close>

definition filterTasksByLabel :: "heap \<Rightarrow> addr \<Rightarrow> string \<Rightarrow> addr \<times> heap" where
  "filterTasksByLabel h a l =
     array_filter (\<lambda>task. case labels task of None \<Rightarrow> False | Some taskLabels \<Rightarrow> l \<in> set taskLabels) h a"

definition priorityOrder :: "string \<Rightarrow> number" where
  "priorityOrder p =
     (if p = ''Critical'' then Some 4
      else if p = ''High'' then Some 3
      else if p = ''Medium'' then Some 2
      else if p = ''Low'' then Some 1
      else None)"

text \<open>
  The comparator the chain of \<open>if (filters.sort === ...)\<close> selects; \<open>None\<close> when no branch
  matches and the array is left unsorted.
\<close>

definition comparefn :: "env \<Rightarrow> string \<Rightarrow> (task \<Rightarrow> task \<Rightarrow> number) option" where
  "comparefn e s =
     (if s = ''date'' then
        Some (\<lambda>a b. minus_num (parseDate e (createdAt b)) (parseDate e (createdAt a)))
      else if s = ''date-asc'' then
        Some (\<lambda>a b. minus_num (parseDate e (createdAt a)) (parseDate e (createdAt b)))
      else if s = ''priority'' then
        Some (\<lambda>a b. minus_num (priorityOrder (priority b)) (priorityOrder (priority a)))
      else if s = ''priority-asc'' then
        Some (\<lambda>a b. minus_num (priorityOrder (priority a)) (priorityOrder (priority b)))
      else if s = ''title'' then
        Some (\<lambda>a b. Some (localeCompare e (title a) (title b)))
      else if s = ''title-desc'' then
        Some (\<lambda>a b. Some (localeCompare e (title b) (title a)))
      else if s = ''rating'' then
        Some (\<lambda>a b. Some (or_number (rating b) 0 - or_number (rating a) 0))
      else if s = ''rating-asc'' then
        Some (\<lambda>a b. Some (or_number (rating a) 0 - or_number (rating b) 0))
      else None)"

text \<open>
  The body of \<open>Object.keys(kanban.tasks).forEach(columnId => ...)\<close> for one column whose
  stored array is at address \<open>a\<close>: the address of the array put into \<open>result[columnId]\<close>
  and the heap after it.
\<close>

definition processColumn :: "env \<Rightarrow> filters \<Rightarrow> heap \<Rightarrow> addr \<Rightarrow> addr \<times> heap" where
  "processColumn e f h a =
     (let (columnTasks, h) = alloc h (h ! a);
          (columnTasks, h) =
            (if f_search f \<noteq> [] then array_filter (matchesSearch (f_search f)) h columnTasks
             else (columnTasks, h));
          (columnTasks, h) =
            (case f_label f of
               NoLabel \<Rightarrow> (columnTasks, h)
             | ManyLabels ls \<Rightarrow> array_filter (matchesLabels ls) h columnTasks
             | OneLabel l \<Rightarrow>
                 if l \<noteq> [] then filterTasksByLabel h columnTasks l else (columnTasks, h));
          (columnTasks, h) =
            (case f_priority f of
               None \<Rightarrow> (columnTasks, h)
             | Some p \<Rightarrow>
                 if p \<noteq> [] then array_filter (\<lambda>task. priority task = p) h columnTasks
                 else (columnTasks, h));
          h = (case comparefn e (f_sort f) of
                 None \<Rightarrow> h
               | Some c \<Rightarrow> sort_in_place c h columnTasks)
      in (columnTasks, h))"

text \<open>
  \<open>processedTasks\<close>: \<open>kanban.tasks\<close> maps each column id to the address of its stored
  array, in key order; the result maps each column id to the address of its projected
  array.
\<close>

fun forEach_column ::
  "env \<Rightarrow> filters \<Rightarrow> (string \<times> addr) list \<Rightarrow> heap \<Rightarrow> (string \<times> addr) list \<times> heap" where
  "forEach_column e f [] h = ([], h)"
| "forEach_column e f ((columnId, a) # rest) h =
     (let (a', h1) = processColumn e f h a;
          (result, h2) = forEach_column e f rest h1
      in ((columnId, a') # result, h2))"

definition processedTasks ::
  "env \<Rightarrow> filters \<Rightarrow> heap \<Rightarrow> (string \<times> addr) list \<Rightarrow> (string \<times> addr) list \<times> heap" where
  "processedTasks e f h kanban_tasks = forEach_column e f kanban_tasks h"

text \<open>The stored arrays are arrays of the heap.\<close>

definition stored :: "heap \<Rightarrow> (string \<times> addr) list \<Rightarrow> bool" where
  "stored h kanban_tasks = list_all (\<lambda>(columnId, a). a < length h) kanban_tasks"

text \<open>
  The content of the array a column's three filter steps leave, as a function of the
  stored content: the steps of \<open>processColumn\<close> without the heap.
\<close>

definition filtered :: "filters \<Rightarrow> task list \<Rightarrow> task list" where
  "filtered f xs =
     (let xs1 = (if f_search f \<noteq> [] then filter (matchesSearch (f_search f)) xs else xs);
          xs2 = (case f_label f of
                   NoLabel \<Rightarrow> xs1
                 | ManyLabels ls \<Rightarrow> filter (matchesLabels ls) xs1
                 | OneLabel l \<Rightarrow>
                     if l \<noteq> []
                     then filter (\<lambda>task. case labels task of None \<Rightarrow> False | Some taskLabels \<Rightarrow> l \<in> set taskLabels) xs1
                     else xs1)
      in case f_priority f of
           None \<Rightarrow> xs2
         | Some p \<Rightarrow> if p \<noteq> [] then filter (\<lambda>task. priority task = p) xs2 else xs2)"

text \<open>The content of the projected array: the filtered content, sorted when a sort key applies.\<close>

definition projected :: "env \<Rightarrow> filters \<Rightarrow> task list \<Rightarrow> task list" where
  "projected e f xs =
     (case comparefn e (f_sort f) of
        None \<Rightarrow> filtered f xs
      | Some c \<Rightarrow> array_sort c (filtered f xs))"

text \<open>
  While a column is processed from the heap \<open>h0\<close>: the current array is a new one, it
  holds \<open>xs\<close>, and the arrays of \<open>h0\<close> are as they were.
\<close>

definition holds :: "heap \<Rightarrow> addr \<times> heap \<Rightarrow> task list \<Rightarrow> bool" where
  "holds h0 r xs = (case r of (ct, h) \<Rightarrow>
     length h0 \<le> ct \<and> ct < length h \<and> take (length h0) h = h0 \<and> h ! ct = xs)"

section \<open>inputSanitization: sanitizeInput\<close>

text \<open>A value a caller may pass where a string is expected.\<close>

datatype jsval = Undefined | Null | Boolean bool | Number real | String string | Object

text \<open>
  The \<open>options\<close> object of \<open>sanitizeInput\<close>; an absent key takes the default of the
  destructuring (\<open>maxLength = 1000\<close>, \<open>allowHTML = false\<close>, \<open>preserveNewlines = true\<close>).
\<close>

record sanitize_options =
  maxLength :: "int option"
  allowHTML :: "bool option"
  preserveNewlines :: "bool option"

definition no_options :: sanitize_options where
  "no_options = \<lparr>maxLength = None, allowHTML = None, preserveNewlines = None\<rparr>"

text \<open>The class \<open>[\x00-\x08\x0B\x0C\x0E-\x1F\x7F]\<close>.\<close>

definition is_control :: "char \<Rightarrow> bool" where
  "is_control c =
     (let n = (of_char c :: nat)
      in n \<le> 8 \<or> n = 11 \<or> n = 12 \<or> (14 \<le> n \<and> n \<le> 31) \<or> n = 127)"

text \<open>
  \<open>\s\<close> and the characters \<open>trim()\<close> strips, below 256: tab, line feed, vertical tab,
  form feed, carriage return, space and the no-break space.
\<close>

definition is_space :: "char \<Rightarrow> bool" where
  "is_space c = (let n = (of_char c :: nat) in (9 \<le> n \<and> n \<le> 13) \<or> n = 32 \<or> n = 160)"

text \<open>The class \<open>\w\<close>: \<open>[A-Za-z0-9_]\<close>.\<close>

definition is_word :: "char \<Rightarrow> bool" where
  "is_word c =
     (let n = (of_char c :: nat)
      in (48 \<le> n \<and> n \<le> 57) \<or> (65 \<le> n \<and> n \<le> 90) \<or> n = 95 \<or> (97 \<le> n \<and> n \<le> 122))"

text \<open>
  Matching with the flag \<open>i\<close>: a letter of the pattern matches its two ASCII cases and
  nothing else, so the text is compared after lowering A to Z.
\<close>

definition ascii_lower :: "char \<Rightarrow> char" where
  "ascii_lower c =
     (let n = (of_char c :: nat)
      in if 65 \<le> n \<and> n \<le> 90
         then (case c of Char b0 b1 b2 b3 b4 b5 b6 b7 \<Rightarrow> Char b0 b1 b2 b3 b4 True b6 b7)
         else c)"

text \<open>
  \<open>.replace(/<[^>]*>/g, '')\<close>: at a \<open><\<close> that has a \<open>>\<close> somewhere after it the text up to
  the first such \<open>>\<close> goes; the scan goes on behind it.
\<close>

function strip_tags :: "string \<Rightarrow> string" where
  "strip_tags [] = []"
| "strip_tags (c # cs) =
     (if c = CHR ''<'' \<and> CHR ''>'' \<in> set cs
      then strip_tags (tl (dropWhile (\<lambda>x. x \<noteq> CHR ''>'') cs))
      else c # strip_tags cs)"
  by pat_completeness auto
termination
proof (relation "measure length")
  fix c :: char and cs :: string
  have "length (tl (dropWhile (\<lambda>x. x \<noteq> CHR ''>'') cs)) \<le> length cs"
    using length_dropWhile_le [of "\<lambda>x. x \<noteq> CHR ''>''" cs] by simp
  then show "(tl (dropWhile (\<lambda>x. x \<noteq> CHR ''>'') cs), c # cs) \<in> measure length"
    by simp
qed simp_all

text \<open>
  \<open>.replace(/javascript:/gi, '')\<close>, for any literal pattern given in lower case: every
  occurrence found in one scan from the left goes.
\<close>

function remove_ci :: "string \<Rightarrow> string \<Rightarrow> string" where
  "remove_ci pat [] = []"
| "remove_ci pat (c # cs) =
     (if pat \<noteq> [] \<and> map ascii_lower (take (length pat) (c # cs)) = pat
      then remove_ci pat (drop (length pat) (c # cs))
      else c # remove_ci pat cs)"
  by pat_completeness auto
termination
  by (relation "measure (\<lambda>(pat, s). length s)") auto

text \<open>
  One match of \<open>/on\w+\s*=/i\<close> at the head of the text: the text behind the match, or
  \<open>None\<close>. The three classes and \<open>=\<close> are disjoint, so only the longest run of word
  characters and the longest run of white space can be followed by the \<open>=\<close>.
\<close>

definition match_handler :: "string \<Rightarrow> string option" where
  "match_handler s =
     (if map ascii_lower (take 2 s) = ''on'' then
        (let r1 = drop 2 s;
             r2 = dropWhile is_word r1;
             r3 = dropWhile is_space r2
         in if takeWhile is_word r1 \<noteq> [] \<and> r3 \<noteq> [] \<and> hd r3 = CHR ''=''
            then Some (tl r3) else None)
      else None)"

lemma match_handler_shorter: "match_handler s = Some r \<Longrightarrow> length r < length s"
proof -
  assume m: "match_handler s = Some r"
  let ?r1 = "drop 2 s"
  let ?r2 = "dropWhile is_word ?r1"
  let ?r3 = "dropWhile is_space ?r2"
  have r: "r = tl ?r3" and ne: "?r3 \<noteq> []"
    using m by (auto simp: match_handler_def Let_def split: if_splits)
  have "length ?r3 \<le> length ?r2" by (rule length_dropWhile_le)
  also have "\<dots> \<le> length ?r1" by (rule length_dropWhile_le)
  also have "\<dots> \<le> length s" by simp
  finally have "length ?r3 \<le> length s" .
  moreover have "length (tl ?r3) < length ?r3" using ne by (cases ?r3) simp_all
  ultimately show ?thesis using r by simp
qed

text \<open>\<open>.replace(/on\w+\s*=/gi, '')\<close>\<close>

function remove_handlers :: "string \<Rightarrow> string" where
  "remove_handlers [] = []"
| "remove_handlers (c # cs) =
     (case match_handler (c # cs) of
        Some r \<Rightarrow> remove_handlers r
      | None \<Rightarrow> c # remove_handlers cs)"
  by pat_completeness auto
termination
  by (relation "measure length") (auto dest: match_handler_shorter)

definition trim :: "string \<Rightarrow> string" where
  "trim s = rev (dropWhile is_space (rev (dropWhile is_space s)))"

definition sanitizeInput :: "jsval \<Rightarrow> sanitize_options \<Rightarrow> string" where
  "sanitizeInput input options =
     (case input of
        String s \<Rightarrow>
          (let maxLength = (case maxLength options of None \<Rightarrow> 1000 | Some m \<Rightarrow> m);
               allowHTML = (case allowHTML options of None \<Rightarrow> False | Some b \<Rightarrow> b);
               preserveNewlines = (case preserveNewlines options of None \<Rightarrow> True | Some b \<Rightarrow> b);
               sanitized = filter (\<lambda>c. \<not> is_control c) s;
               sanitized =
                 (if \<not> allowHTML then
                    remove_handlers
                      (remove_ci ''javascript:''
                        (filter (\<lambda>c. c \<notin> {CHR ''<'', CHR ''>'', CHR 0x22, CHR 0x27})
                          (strip_tags sanitized)))
                  else sanitized);
               sanitized =
                 (if \<not> preserveNewlines
                  then map (\<lambda>c. if c = CHR 0x0D \<or> c = CHR 0x0A then CHR '' '' else c) sanitized
                  else sanitized);
               sanitized = trim sanitized
           in if int (length sanitized) > maxLength
              then take (nat maxLength) sanitized
              else sanitized)
      | _ \<Rightarrow> [])"

section \<open>inputSanitization: sanitizeNumber\<close>

text \<open>
  The value of \<open>parseFloat(input)\<close>, which for a number is the number itself: finite,
  \<open>NaN\<close> or an infinity.
\<close>

datatype parsed = Finite real | NaN | PosInfinity | NegInfinity

text \<open>
  The \<open>options\<close> object of \<open>sanitizeNumber\<close>. Absent bounds are the infinite defaults;
  the absent default value is 0 and \<open>allowFloat\<close> defaults to true.
\<close>

record number_options =
  opt_min :: "real option"
  opt_max :: "real option"
  defaultValue :: "real option"
  allowFloat :: "bool option"

definition sanitizeNumber :: "parsed \<Rightarrow> number_options \<Rightarrow> real" where
  "sanitizeNumber input options =
     (case input of
        Finite num \<Rightarrow>
          (let num = (if (case allowFloat options of None \<Rightarrow> True | Some b \<Rightarrow> b)
                      then num else of_int \<lfloor>num\<rfloor>);
               num = (case opt_max options of None \<Rightarrow> num | Some hi \<Rightarrow> min hi num)
           in case opt_min options of None \<Rightarrow> num | Some lo \<Rightarrow> max lo num)
      | _ \<Rightarrow> (case defaultValue options of None \<Rightarrow> 0 | Some d \<Rightarrow> d))"

section \<open>inputSanitization: sanitizeTaskData\<close>

text \<open>\<open>if (v)\<close>: the truthiness of a value.\<close>

definition truthy :: "jsval \<Rightarrow> bool" where
  "truthy v =
     (case v of
        Undefined \<Rightarrow> False
      | Null \<Rightarrow> False
      | Boolean b \<Rightarrow> b
      | Number r \<Rightarrow> r \<noteq> 0
      | String s \<Rightarrow> s \<noteq> []
      | Object \<Rightarrow> True)"

text \<open>
  The raw task data of a form. \<open>raw_rating\<close> is \<open>None\<close> when \<open>taskData.rating\<close> is
  \<open>undefined\<close> and the value of \<open>parseFloat(taskData.rating)\<close> otherwise; \<open>raw_labels\<close> is
  \<open>None\<close> when \<open>taskData.labels\<close> is not an array.
\<close>

record raw_task_data =
  raw_title :: jsval
  raw_details :: jsval
  raw_priority :: jsval
  raw_rating :: "parsed option"
  raw_labels :: "jsval list option"
  raw_status :: jsval

definition allowedPriorities :: "string list" where
  "allowedPriorities = [''Critical'', ''High'', ''Medium'', ''Low'']"

definition allowedStatuses :: "string list" where
  "allowedStatuses = ['''', ''active'', ''completed'', ''archived'']"

definition rating_options :: number_options where
  "rating_options =
     \<lparr>opt_min = Some 0, opt_max = Some 10, defaultValue = Some 0, allowFloat = Some True\<rparr>"

text \<open>
  \<open>sanitizeTaskData\<close>; the argument is \<open>None\<close> when \<open>taskData\<close> is falsy or not an object.
  Only the keys that pass are set in the result.
\<close>

definition sanitizeTaskData :: "raw_task_data option \<Rightarrow> task_data" where
  "sanitizeTaskData taskData =
     (case taskData of
        None \<Rightarrow> no_data
      | Some d \<Rightarrow>
          no_data
          \<lparr>td_title :=
             (if truthy (raw_title d)
              then Some (sanitizeInput (raw_title d)
                     \<lparr>maxLength = Some 200, allowHTML = Some False, preserveNewlines = Some False\<rparr>)
              else None),
           td_details :=
             (if truthy (raw_details d)
              then Some (sanitizeInput (raw_details d)
                     \<lparr>maxLength = Some 2000, allowHTML = Some False, preserveNewlines = Some True\<rparr>)
              else None),
           td_priority :=
             (case raw_priority d of
                String p \<Rightarrow> if p \<noteq> [] \<and> p \<in> set allowedPriorities then Some p else None
              | _ \<Rightarrow> None),
           td_rating := map_option (\<lambda>input. sanitizeNumber input rating_options) (raw_rating d),
           td_labels :=
             map_option
               (\<lambda>ls. take 10
                  (filter (\<lambda>label. length label > 0)
                    (map (\<lambda>label. sanitizeInput label
                            \<lparr>maxLength = Some 50, allowHTML = Some False, preserveNewlines = None\<rparr>)
                       ls)))
               (raw_labels d),
           td_status :=
             (case raw_status d of
                String s \<Rightarrow> if s \<noteq> [] \<and> s \<in> set allowedStatuses then Some s else None
              | _ \<Rightarrow> None)\<rparr>)"

section \<open>The board store\<close>

text \<open>
  The state of the kanban slice, \<open>{columns, tasks, labels}\<close>: \<open>tasks\<close> maps a column id to
  the ordered list of the tasks placed in that column, in key order.
\<close>

record column =
  col_id :: string
  col_title :: string
  col_order :: nat

record label_rec =
  label_id :: string
  label_name :: string
  label_color :: string

record kanban =
  columns :: "column list"
  tasks :: "(string \<times> task list) list"
  board_labels :: "label_rec list"

datatype error = ValidationError string | NotFoundError ident

text \<open>
  Modelled from the spec: the clamping of \<open>rating\<close> to \<open>[0,10]\<close> that every mutating
  operation of the store applies; the reducers of \<open>store/slices/kanbanSlice\<close> are not
  among the sources. The clamp is the one \<open>sanitizeTaskData\<close> uses.
\<close>

definition clampRating :: "real \<Rightarrow> real" where
  "clampRating r = sanitizeNumber (Finite r) rating_options"

text \<open>
  Modelled from the spec: the validation every mutating operation of the store applies
  to a task (section 4.3); \<open>kanbanSlice\<close> is not among the sources. A priority outside
  the enum is rejected, the rating is clamped and the labels are cut to the design cap of
  10. The required fields are present in every task record.
\<close>

definition validateTask :: "task \<Rightarrow> error + task" where
  "validateTask t =
     (if priority t \<notin> set allowedPriorities then Inl (ValidationError ''priority'')
      else Inr (t\<lparr>rating := map_option clampRating (rating t),
                  labels := map_option (take 10) (labels t)\<rparr>))"

text \<open>
  Modelled from the spec: the same validation on the fields a patch carries;
  \<open>kanbanSlice\<close> is not among the sources.
\<close>

definition validatePatch :: "task_data \<Rightarrow> error + task_data" where
  "validatePatch p =
     (case td_priority p of
        Some pr \<Rightarrow>
          if pr \<notin> set allowedPriorities then Inl (ValidationError ''priority'')
          else Inr (p\<lparr>td_rating := map_option clampRating (td_rating p),
                      td_labels := map_option (take 10) (td_labels p)\<rparr>)
      | None \<Rightarrow>
          Inr (p\<lparr>td_rating := map_option clampRating (td_rating p),
                  td_labels := map_option (take 10) (td_labels p)\<rparr>))"

text \<open>
  Modelled from the spec: the reducer \<open>addTask\<close> of \<open>kanbanSlice\<close>, which is not among the
  sources. It appends the validated task to the end of the column's list and fails with
  \<open>NotFoundError\<close> when the store holds no list for the column.
\<close>

definition addTask :: "string \<Rightarrow> task \<Rightarrow> kanban \<Rightarrow> error + kanban" where
  "addTask columnId t k =
     (case map_of (tasks k) columnId of
        None \<Rightarrow> Inl (NotFoundError (StrId columnId))
      | Some ts \<Rightarrow>
          (case validateTask t of
             Inl e \<Rightarrow> Inl e
           | Inr t' \<Rightarrow>
               Inr (k\<lparr>tasks := map (\<lambda>(c, xs). if c = columnId then (c, xs @ [t']) else (c, xs))
                                   (tasks k)\<rparr>)))"

text \<open>The first task with the id, scanning a list from the front, rewritten by \<open>g\<close>.\<close>

fun edit_list :: "ident \<Rightarrow> (task \<Rightarrow> task) \<Rightarrow> task list \<Rightarrow> task list option" where
  "edit_list i g [] = None"
| "edit_list i g (t # ts) =
     (if task_id t = i then Some (g t # ts)
      else map_option ((#) t) (edit_list i g ts))"

fun edit_columns ::
  "ident \<Rightarrow> (task \<Rightarrow> task) \<Rightarrow> (string \<times> task list) list \<Rightarrow> (string \<times> task list) list option" where
  "edit_columns i g [] = None"
| "edit_columns i g ((c, ts) # rest) =
     (case edit_list i g ts of
        Some ts' \<Rightarrow> Some ((c, ts') # rest)
      | None \<Rightarrow> map_option ((#) (c, ts)) (edit_columns i g rest))"

text \<open>
  Modelled from the spec: the reducer \<open>editTask\<close> of \<open>kanbanSlice\<close>, which is not among the
  sources. It merges the validated fields of the patch into the task where it resides
  and fails with \<open>NotFoundError\<close> when no column holds the task.
\<close>

definition editTask :: "ident \<Rightarrow> task_data \<Rightarrow> kanban \<Rightarrow> error + kanban" where
  "editTask taskId patch k =
     (case validatePatch patch of
        Inl e \<Rightarrow> Inl e
      | Inr p \<Rightarrow>
          (case edit_columns taskId (spread p) (tasks k) of
             None \<Rightarrow> Inl (NotFoundError taskId)
           | Some ts \<Rightarrow> Inr (k\<lparr>tasks := ts\<rparr>)))"

text \<open>Reading a task back: the first task with the id, scanning the columns in order.\<close>

definition findTask :: "kanban \<Rightarrow> ident \<Rightarrow> task option" where
  "findTask k i = find (\<lambda>t. task_id t = i) (concat (map snd (tasks k)))"

section \<open>useTaskManagement: the task operations\<close>

text \<open>
  \<open>addNewTask\<close> builds \<open>newTask\<close> and dispatches \<open>addTask({ columnId, task: newTask })\<close>;
  \<open>updateTask\<close> dispatches \<open>editTask({ taskId, data })\<close>. The store after the dispatch, or
  the error of the reducer.
\<close>

definition addNewTask :: "real \<Rightarrow> string \<Rightarrow> string \<Rightarrow> task_data \<Rightarrow> kanban \<Rightarrow> error + kanban" where
  "addNewTask r now columnId taskData k = addTask columnId (newTask r now taskData) k"

definition updateTask :: "ident \<Rightarrow> task_data \<Rightarrow> kanban \<Rightarrow> error + kanban" where
  "updateTask taskId data k = editTask taskId data k"

text \<open>No stored task has more than 10 labels.\<close>

definition labels_capped :: "kanban \<Rightarrow> bool" where
  "labels_capped k =
     list_all (\<lambda>t. case labels t of None \<Rightarrow> True | Some ls \<Rightarrow> length ls \<le> 10)
       (concat (map snd (tasks k)))"

section \<open>inputSanitization: sanitizeEmail\<close>

text \<open>The characters \<open>.replace(/[^a-z0-9@.\-_+]/g, '')\<close> keeps.\<close>

definition email_char :: "char \<Rightarrow> bool" where
  "email_char c =
     (let n = (of_char c :: nat)
      in (97 \<le> n \<and> n \<le> 122) \<or> (48 \<le> n \<and> n \<le> 57) \<or>
         c \<in> {CHR ''@'', CHR ''.'', CHR ''-'', CHR ''_'', CHR ''+''})"

definition is_alpha :: "char \<Rightarrow> bool" where
  "is_alpha c = (let n = (of_char c :: nat) in (65 \<le> n \<and> n \<le> 90) \<or> (97 \<le> n \<and> n \<le> 122))"

definition is_digit :: "char \<Rightarrow> bool" where
  "is_digit c = (let n = (of_char c :: nat) in 48 \<le> n \<and> n \<le> 57)"

text \<open>
  \<open>/^[a-zA-Z0-9._%+-]+@[a-zA-Z0-9.-]+\.[a-zA-Z]{2,}$/.test(s)\<close>. Neither class has \<open>@\<close>, so
  the local part ends at the first \<open>@\<close>; the letters at the end have no dot, so the dot
  before them is the last dot of the text.
\<close>

definition emailRegex_test :: "string \<Rightarrow> bool" where
  "emailRegex_test s =
     (let local = takeWhile (\<lambda>c. c \<noteq> CHR ''@'') s;
          rest = dropWhile (\<lambda>c. c \<noteq> CHR ''@'') s;
          host = tl rest;
          tld = rev (takeWhile (\<lambda>c. c \<noteq> CHR ''.'') (rev host));
          dom = rev (dropWhile (\<lambda>c. c \<noteq> CHR ''.'') (rev host))
      in local \<noteq> [] \<and>
         list_all (\<lambda>c. is_alpha c \<or> is_digit c \<or>
                        c \<in> {CHR ''.'', CHR ''_'', CHR ''%'', CHR ''+'', CHR ''-''}) local \<and>
         rest \<noteq> [] \<and> dom \<noteq> [] \<and> butlast dom \<noteq> [] \<and>
         list_all (\<lambda>c. is_alpha c \<or> is_digit c \<or> c \<in> {CHR ''.'', CHR ''-''}) (butlast dom) \<and>
         2 \<le> length tld \<and> list_all is_alpha tld)"

definition sanitizeEmail :: "jsval \<Rightarrow> string" where
  "sanitizeEmail email =
     (case email of
        String s \<Rightarrow>
          (let sanitized = trim (filter email_char (toLowerCase s))
           in if emailRegex_test sanitized then sanitized else [])
      | _ \<Rightarrow> [])"

section \<open>authSlice: login and signup\<close>

record registered_user =
  user_id :: int
  user_email :: string
  user_password :: string
  user_createdAt :: string

record auth_user =
  au_email :: string
  au_id :: int

text \<open>The part of the root state the thunks read and write: \<open>auth.user\<close> and the kanban slice.\<close>

record root_state =
  current_user :: "auth_user option"
  kanban_state :: kanban

text \<open>
  What a call of \<open>loadPersistedState\<close> does: it throws, it returns \<open>null\<close>, or it returns an
  object whose \<open>kanban\<close> key may be missing.
\<close>

datatype load_result = Throws | ReturnsNull | ReturnsObject "kanban option"

text \<open>
  What the thunks take from outside \<open>authSlice\<close>. \<open>registeredUsers\<close> is the value of
  \<open>getRegisteredUsers()\<close>, which reads \<open>localStorage\<close> and catches its own errors.
  \<open>clearUserData\<close> and \<open>loadPersistedState\<close> are functions of \<open>utils/persistState\<close>, and
  \<open>resetKanbanState\<close> and \<open>setKanbanFromLocalStorage\<close> are reducers of \<open>kanbanSlice\<close>;
  neither file is among the sources, so they are parameters. \<open>clearUserData\<close> tells
  whether the call returns (it throws otherwise); \<open>setKanbanFromLocalStorage\<close> takes the
  payload, then the state.
\<close>

record auth_env =
  registeredUsers :: "registered_user list"
  clearUserData :: "string \<Rightarrow> bool"
  loadPersistedState :: "string \<Rightarrow> load_result"
  resetKanbanState :: "kanban \<Rightarrow> kanban"
  setKanbanFromLocalStorage :: "kanban \<Rightarrow> kanban \<Rightarrow> kanban"

datatype 'a outcome = Rejected string | Fulfilled 'a

definition password_options :: sanitize_options where
  "password_options = \<lparr>maxLength = Some 100, allowHTML = Some False, preserveNewlines = Some False\<rparr>"

text \<open>
  The \<open>login\<close> thunk: how it settles, and the kanban slice after the actions it
  dispatched. Every \<open>return rejectWithValue(...)\<close> and the \<open>catch\<close> are a \<open>Rejected\<close> branch.
\<close>

definition login :: "auth_env \<Rightarrow> jsval \<Rightarrow> jsval \<Rightarrow> root_state \<Rightarrow> auth_user outcome \<times> kanban" where
  "login env email password st =
     (let sanitizedEmail = sanitizeEmail email;
          sanitizedPassword = sanitizeInput password password_options
      in if sanitizedEmail = [] then
           (Rejected ''Please enter a valid email address'', kanban_state st)
         else if sanitizedPassword = [] \<or> length sanitizedPassword < 1 then
           (Rejected ''Password is required'', kanban_state st)
         else
           (case find (\<lambda>u. user_email u = sanitizedEmail) (registeredUsers env) of
              None \<Rightarrow> (Rejected ''User not registered. Please sign up first.'', kanban_state st)
            | Some user \<Rightarrow>
                if user_password user \<noteq> sanitizedPassword then
                  (Rejected ''Invalid password'', kanban_state st)
                else
                  (let switch = (case current_user st of
                                   None \<Rightarrow> None
                                 | Some u \<Rightarrow> if au_email u \<noteq> sanitizedEmail
                                             then Some (au_email u) else None)
                   in case (case switch of
                              None \<Rightarrow> Some (kanban_state st)
                            | Some old \<Rightarrow>
                                if clearUserData env old
                                then Some (resetKanbanState env (kanban_state st))
                                else None) of
                        None \<Rightarrow> (Rejected ''Login failed. Please try again.'', kanban_state st)
                      | Some k1 \<Rightarrow>
                          (case loadPersistedState env sanitizedEmail of
                             Throws \<Rightarrow> (Rejected ''Login failed. Please try again.'', k1)
                           | ReturnsNull \<Rightarrow> (Rejected ''Login failed. Please try again.'', k1)
                           | ReturnsObject None \<Rightarrow>
                               (Fulfilled \<lparr>au_email = user_email user, au_id = user_id user\<rparr>,
                                resetKanbanState env k1)
                           | ReturnsObject (Some kanban) \<Rightarrow>
                               (Fulfilled \<lparr>au_email = user_email user, au_id = user_id user\<rparr>,
                                setKanbanFromLocalStorage env kanban k1)))))"

text \<open>
  The \<open>signup\<close> thunk: how it settles, the kanban slice after it (the thunk is given no
  \<open>dispatch\<close>), and the registered users in \<open>localStorage\<close> after it. \<open>now_ms\<close> is
  \<open>Date.now()\<close> and \<open>now\<close> is \<open>new Date().toISOString()\<close>.
\<close>

definition signup ::
  "auth_env \<Rightarrow> int \<Rightarrow> string \<Rightarrow> jsval \<Rightarrow> jsval \<Rightarrow> root_state \<Rightarrow>
     auth_user outcome \<times> kanban \<times> registered_user list" where
  "signup env now_ms now email password st =
     (let sanitizedEmail = sanitizeEmail email;
          sanitizedPassword = sanitizeInput password password_options
      in if sanitizedEmail = [] then
           (Rejected ''Please enter a valid email address'', kanban_state st, registeredUsers env)
         else if sanitizedPassword = [] \<or> length sanitizedPassword < 6 then
           (Rejected ''Password must be at least 6 characters long'', kanban_state st,
            registeredUsers env)
         else if length sanitizedPassword > 50 then
           (Rejected ''Password must be less than 50 characters'', kanban_state st,
            registeredUsers env)
         else
           (case find (\<lambda>u. user_email u = sanitizedEmail) (registeredUsers env) of
              Some existingUser \<Rightarrow>
                (Rejected ''User already registered. Please login instead.'', kanban_state st,
                 registeredUsers env)
            | None \<Rightarrow>
                (let newUser = \<lparr>user_id = now_ms, user_email = sanitizedEmail,
                                 user_password = sanitizedPassword, user_createdAt = now\<rparr>
                 in (Fulfilled \<lparr>au_email = user_email newUser, au_id = user_id newUser\<rparr>,
                     kanban_state st, registeredUsers env @ [newUser]))))"

section \<open>A sample board\<close>

definition sample_task :: "int \<Rightarrow> string \<Rightarrow> string \<Rightarrow> string list \<Rightarrow> string \<Rightarrow> task" where
  "sample_task n ti de ls p =
     \<lparr>task_id = NumId n, title = ti, details = de, labels = Some ls, priority = p,
      rating = Some (88 / 10), starred = False, status = '''',
      createdAt = ''2024-01-01T00:00:00.000Z'', dueDate = '''',
      priorityColor = getPriorityColor p\<rparr>"

definition sample_env :: env where
  "sample_env =
     \<lparr>parseDate = (\<lambda>s. if s = [] then None else Some (real (length s))),
      localeCompare = (\<lambda>a b. 0)\<rparr>"

definition T1 :: task where
  "T1 = sample_task 1001 ''SQL injection in login'' ''form field'' [''lbl-A''] ''High''"

definition T2 :: task where
  "T2 = sample_task 1002 ''Outdated TLS'' ''found by sqlmap'' [''lbl-B'', ''lbl-A''] ''High''"

definition T3 :: task where
  "T3 = sample_task 1003 ''Blind SQL'' '''' [''lbl-A''] ''Critical''"

definition T4 :: task where
  "T4 = sample_task 1004 ''XSS in search'' '''' [''lbl-A''] ''Low''"

definition sample_heap :: heap where
  "sample_heap = [[T1, T2, T3, T4], []]"

definition sample_columns :: "(string \<times> addr) list" where
  "sample_columns = [(''backlog'', 0), (''todo'', 1)]"

definition sample_filters :: filters where
  "sample_filters =
     \<lparr>f_search = ''sql'', f_label = ManyLabels [''lbl-A''], f_priority = Some ''High'',
      f_sort = ''priority''\<rparr>"

definition sample_board :: kanban where
  "sample_board =
     \<lparr>columns = [\<lparr>col_id = ''backlog'', col_title = ''Backlog'', col_order = 0\<rparr>,
                 \<lparr>col_id = ''todo'', col_title = ''To Do'', col_order = 1\<rparr>],
      tasks = [(''backlog'', [T1, T2]), (''todo'', [T3])],
      board_labels = [\<lparr>label_id = ''lbl-A'', label_name = ''web'', label_color = ''#ff0000''\<rparr>]\<rparr>"

text \<open>
  A second user, and an environment in which \<open>loadPersistedState\<close> returns \<open>null\<close>, as the
  spec allows, and \<open>resetKanbanState\<close> restores a seed of default columns without tasks.
\<close>

definition seed_board :: kanban where
  "seed_board = sample_board\<lparr>tasks := [(''backlog'', []), (''todo'', [])], board_labels := []\<rparr>"

definition sample_auth_env :: auth_env where
  "sample_auth_env =
     \<lparr>registeredUsers =
        [\<lparr>user_id = 1, user_email = ''alice@example.com'', user_password = ''wonderland'',
          user_createdAt = ''2024-01-01T00:00:00.000Z''\<rparr>,
         \<lparr>user_id = 2, user_email = ''bob@example.com'', user_password = ''builder1'',
          user_createdAt = ''2024-01-02T00:00:00.000Z''\<rparr>],
      clearUserData = (\<lambda>email. True),
      loadPersistedState = (\<lambda>email. ReturnsNull),
      resetKanbanState = (\<lambda>state. seed_board),
      setKanbanFromLocalStorage = (\<lambda>payload state. payload)\<rparr>"

definition alice_session :: root_state where
  "alice_session =
     \<lparr>current_user = Some \<lparr>au_email = ''alice@example.com'', au_id = 1\<rparr>,
      kanban_state = sample_board\<rparr>"

text \<open>
  A column in which one task has a priority outside the table, and the filter slice that
  sorts it by ascending priority.
\<close>

definition U1 :: task where "U1 = sample_task 1 ''Weak cipher'' '''' [] ''Critical''"
definition U2 :: task where "U2 = sample_task 2 ''Open redirect'' '''' [] ''Critical''"
definition U3 :: task where "U3 = sample_task 3 ''Path traversal'' '''' [] ''Critical''"
definition U4 :: task where "U4 = sample_task 4 ''Stale session'' '''' [] ''Bogus''"
definition U5 :: task where "U5 = sample_task 5 ''CSRF on logout'' '''' [] ''High''"
definition U6 :: task where "U6 = sample_task 6 ''Verbose errors'' '''' [] ''Medium''"
definition U7 :: task where "U7 = sample_task 7 ''Default password'' '''' [] ''High''"

definition unranked_heap :: heap where
  "unranked_heap = [[U1, U2, U3, U4, U5, U6, U7]]"

definition priority_asc_filters :: filters where
  "priority_asc_filters =
     \<lparr>f_search = [], f_label = NoLabel, f_priority = None, f_sort = ''priority-asc''\<rparr>"

section \<open>The projected view: what the result arrays hold\<close>

lemma holds_alloc: "a < length h \<Longrightarrow> holds h (alloc h (h ! a)) (h ! a)"
  by (simp add: holds_def alloc_def)

lemma holds_filter:
  assumes "holds h0 (ct, h) xs"
  shows "holds h0 (array_filter pred h ct) (filter pred xs)"
  using assms by (auto simp: holds_def array_filter_def alloc_def)

lemma holds_sort:
  assumes "holds h0 (ct, h) xs"
  shows "holds h0 (ct, sort_in_place c h ct) (array_sort c xs)"
  using assms by (auto simp: holds_def sort_in_place_def)

lemma processColumn_holds:
  assumes "a < length h"
  shows "holds h (processColumn e f h a) (projected e f (h ! a))"
proof -
  obtain ct1 h1 where s1: "alloc h (h ! a) = (ct1, h1)" by fastforce
  have i1: "holds h (ct1, h1) (h ! a)" using holds_alloc [OF assms] s1 by simp
  define xs1 where "xs1 = (if f_search f \<noteq> [] then filter (matchesSearch (f_search f)) (h ! a) else h ! a)"
  obtain ct2 h2 where s2: "(if f_search f \<noteq> [] then array_filter (matchesSearch (f_search f)) h1 ct1
             else (ct1, h1)) = (ct2, h2)" by fastforce
  have i2: "holds h (ct2, h2) xs1"
    using holds_filter [OF i1, of "matchesSearch (f_search f)"] i1 s2
    by (auto simp: xs1_def split: if_splits)
  define xs2 where "xs2 = (case f_label f of
                   NoLabel \<Rightarrow> xs1
                 | ManyLabels ls \<Rightarrow> filter (matchesLabels ls) xs1
                 | OneLabel l \<Rightarrow>
                     if l \<noteq> []
                     then filter (\<lambda>task. case labels task of None \<Rightarrow> False | Some taskLabels \<Rightarrow> l \<in> set taskLabels) xs1
                     else xs1)"
  obtain ct3 h3 where s3: "(case f_label f of
               NoLabel \<Rightarrow> (ct2, h2)
             | ManyLabels ls \<Rightarrow> array_filter (matchesLabels ls) h2 ct2
             | OneLabel l \<Rightarrow>
                 if l \<noteq> [] then filterTasksByLabel h2 ct2 l else (ct2, h2)) = (ct3, h3)" by fastforce
  have i3: "holds h (ct3, h3) xs2"
  proof (cases "f_label f")
    case NoLabel
    then show ?thesis using i2 s3 by (simp add: xs2_def)
  next
    case (OneLabel l)
    then show ?thesis
      using holds_filter [OF i2, of "\<lambda>task. case labels task of None \<Rightarrow> False | Some taskLabels \<Rightarrow> l \<in> set taskLabels"] i2 s3
      by (auto simp: xs2_def filterTasksByLabel_def split: if_splits)
  next
    case (ManyLabels ls)
    then show ?thesis
      using holds_filter [OF i2, of "matchesLabels ls"] s3 by (simp add: xs2_def)
  qed
  define xs3 where "xs3 = (case f_priority f of
                   None \<Rightarrow> xs2
                 | Some p \<Rightarrow> if p \<noteq> [] then filter (\<lambda>task. priority task = p) xs2 else xs2)"
  obtain ct4 h4 where s4: "(case f_priority f of
               None \<Rightarrow> (ct3, h3)
             | Some p \<Rightarrow>
                 if p \<noteq> [] then array_filter (\<lambda>task. priority task = p) h3 ct3
                 else (ct3, h3)) = (ct4, h4)" by fastforce
  have i4: "holds h (ct4, h4) xs3"
  proof (cases "f_priority f")
    case None
    then show ?thesis using i3 s4 by (simp add: xs3_def)
  next
    case (Some p)
    then show ?thesis
      using holds_filter [OF i3, of "\<lambda>task. priority task = p"] i3 s4
      by (auto simp: xs3_def split: if_splits)
  qed
  have i5: "holds h (ct4, case comparefn e (f_sort f) of None \<Rightarrow> h4 | Some c \<Rightarrow> sort_in_place c h4 ct4)
              (case comparefn e (f_sort f) of None \<Rightarrow> xs3 | Some c \<Rightarrow> array_sort c xs3)"
  proof (cases "comparefn e (f_sort f)")
    case None
    then show ?thesis using i4 by simp
  next
    case (Some c)
    then show ?thesis using holds_sort [OF i4, of c] by simp
  qed
  have p: "processColumn e f h a =
      (ct4, case comparefn e (f_sort f) of None \<Rightarrow> h4 | Some c \<Rightarrow> sort_in_place c h4 ct4)"
    by (simp add: processColumn_def s1 s2 s3 s4)
  have q: "projected e f (h ! a) =
      (case comparefn e (f_sort f) of None \<Rightarrow> xs3 | Some c \<Rightarrow> array_sort c xs3)"
    unfolding projected_def filtered_def Let_def xs1_def xs2_def xs3_def by (rule refl)
  show ?thesis using i5 by (simp only: p q)
qed


lemma take_nth_same: "take (length h) h' = h \<Longrightarrow> i < length h \<Longrightarrow> h' ! i = h ! i"
  by (metis nth_take)

lemma take_length_le: "take (length h) h' = h \<Longrightarrow> length h \<le> length h'"
  by (metis length_take min.cobounded1 min.commute)

lemma forEach_column_lookup:
  assumes "stored h ts" and "forEach_column e f ts h = (res, h')"
  shows "take (length h) h' = h \<and> map fst res = map fst ts \<and>
     (\<forall>c a. map_of ts c = Some a \<longrightarrow>
        (\<exists>a'. map_of res c = Some a' \<and> length h \<le> a' \<and> a' < length h' \<and>
              h' ! a' = projected e f (h ! a)))"
  using assms
proof (induction ts arbitrary: h res h')
  case Nil
  then show ?case by simp
next
  case (Cons ca rest)
  obtain c0 a0 where ca: "ca = (c0, a0)" by (cases ca)
  obtain a1 h1 where p: "processColumn e f h a0 = (a1, h1)" by fastforce
  obtain res1 h2 where r: "forEach_column e f rest h1 = (res1, h2)" by fastforce
  have a0: "a0 < length h" and st: "stored h rest"
    using Cons.prems(1) by (simp_all add: stored_def ca)
  have hd: "length h \<le> a1" "a1 < length h1" "take (length h) h1 = h"
    "h1 ! a1 = projected e f (h ! a0)"
    using processColumn_holds [OF a0, of e f] p by (simp_all add: holds_def)
  have le1: "length h \<le> length h1" using hd(1,2) by simp
  have st1: "stored h1 rest"
    using st le1 by (auto simp: stored_def list_all_iff)
  note ih = Cons.IH [OF st1 r]
  have res: "res = (c0, a1) # res1" and h': "h' = h2"
    using Cons.prems(2) by (simp_all add: ca p r)
  have le2: "length h1 \<le> length h2" using ih take_length_le by blast
  have t2: "take (length h) h2 = h"
    by (metis hd(3) ih le1 min.absorb1 take_take)
  have keep: "\<And>i. i < length h1 \<Longrightarrow> h2 ! i = h1 ! i"
    using ih take_nth_same by blast
  have keep0: "\<And>i. i < length h \<Longrightarrow> h1 ! i = h ! i"
    using hd(3) take_nth_same by blast
  have look: "\<exists>a'. map_of res c = Some a' \<and> length h \<le> a' \<and> a' < length h' \<and>
              h' ! a' = projected e f (h ! a)" if m: "map_of (ca # rest) c = Some a" for c a
  proof (cases "c = c0")
    case True
    then have "a = a0" using m by (simp add: ca)
    then show ?thesis
      using True hd keep [of a1] le2 by (simp add: res h')
  next
    case False
    then have m': "map_of rest c = Some a" using m by (simp add: ca)
    then obtain a' where a': "map_of res1 c = Some a'" "length h1 \<le> a'" "a' < length h2"
      "h2 ! a' = projected e f (h1 ! a)"
      using ih by blast
    have "a < length h"
      using st m' by (auto simp: stored_def list_all_iff dest: map_of_SomeD)
    then have "h1 ! a = h ! a" using keep0 by simp
    then show ?thesis
      using False a' le1 by (simp add: res h')
  qed
  show ?case
    using t2 ih look by (simp add: res h' ca)
qed

lemma processedTasks_lookup:
  assumes "stored h ts" and "processedTasks e f h ts = (res, h')" and "map_of ts c = Some a"
  shows "\<exists>a'. map_of res c = Some a' \<and> length h \<le> a' \<and> a' < length h' \<and>
              h' ! a' = projected e f (h ! a)"
  using forEach_column_lookup [OF assms(1)] assms(2,3) by (simp add: processedTasks_def)

lemma processedTasks_frame:
  assumes "stored h ts" and "processedTasks e f h ts = (res, h')"
  shows "take (length h) h' = h" and "map fst res = map fst ts"
  using forEach_column_lookup [OF assms(1)] assms(2) by (simp_all add: processedTasks_def)

subsection \<open>Sorting\<close>

lemma consistent_subset: "consistent c S \<Longrightarrow> T \<subseteq> S \<Longrightarrow> consistent c T"
  unfolding consistent_def by blast

lemma consistent_refl: "consistent c S \<Longrightarrow> a \<in> S \<Longrightarrow> sortCompare c a a = 0"
  unfolding consistent_def by blast

lemma consistent_sym:
  "consistent c S \<Longrightarrow> a \<in> S \<Longrightarrow> b \<in> S \<Longrightarrow> sortCompare c a b = 0 \<Longrightarrow> sortCompare c b a = 0"
  unfolding consistent_def by blast

lemma consistent_eq_trans:
  "consistent c S \<Longrightarrow> a \<in> S \<Longrightarrow> b \<in> S \<Longrightarrow> d \<in> S \<Longrightarrow>
   sortCompare c a b = 0 \<Longrightarrow> sortCompare c b d = 0 \<Longrightarrow> sortCompare c a d = 0"
  unfolding consistent_def by blast

lemma consistent_less_trans:
  "consistent c S \<Longrightarrow> a \<in> S \<Longrightarrow> b \<in> S \<Longrightarrow> d \<in> S \<Longrightarrow>
   sortCompare c a b < 0 \<Longrightarrow> sortCompare c b d < 0 \<Longrightarrow> sortCompare c a d < 0"
  unfolding consistent_def by blast

lemma consistent_greater_trans:
  "consistent c S \<Longrightarrow> a \<in> S \<Longrightarrow> b \<in> S \<Longrightarrow> d \<in> S \<Longrightarrow>
   sortCompare c a b > 0 \<Longrightarrow> sortCompare c b d > 0 \<Longrightarrow> sortCompare c a d > 0"
  unfolding consistent_def by blast

lemma consistent_less_greater:
  assumes "consistent c S" and "a \<in> S" and "b \<in> S" and "sortCompare c a b < 0"
  shows "sortCompare c b a > 0"
proof (rule ccontr)
  assume "\<not> sortCompare c b a > 0"
  then consider "sortCompare c b a < 0" | "sortCompare c b a = 0" by linarith
  then show False
  proof cases
    case 1
    then have "sortCompare c a a < 0"
      using consistent_less_trans [OF assms(1,2,3,2) assms(4)] by simp
    then show False using consistent_refl [OF assms(1,2)] by simp
  next
    case 2
    then have "sortCompare c a b = 0" using consistent_sym [OF assms(1,3,2)] by simp
    then show False using assms(4) by simp
  qed
qed

lemma consistent_greater_less:
  assumes "consistent c S" and "a \<in> S" and "b \<in> S" and "sortCompare c a b > 0"
  shows "sortCompare c b a < 0"
proof (rule ccontr)
  assume "\<not> sortCompare c b a < 0"
  then consider "sortCompare c b a > 0" | "sortCompare c b a = 0" by linarith
  then show False
  proof cases
    case 1
    then have "sortCompare c a a > 0"
      using consistent_greater_trans [OF assms(1,2,3,2) assms(4)] by simp
    then show False using consistent_refl [OF assms(1,2)] by simp
  next
    case 2
    then have "sortCompare c a b = 0" using consistent_sym [OF assms(1,3,2)] by simp
    then show False using assms(4) by simp
  qed
qed

text \<open>\<open>p < m\<close> and \<open>m \<le> j\<close> give \<open>p < j\<close>.\<close>

lemma consistent_less_le:
  assumes "consistent c S" and "p \<in> S" and "m \<in> S" and "j \<in> S"
    and "sortCompare c p m < 0" and "\<not> sortCompare c j m < 0"
  shows "sortCompare c p j < 0"
proof -
  consider "sortCompare c j m > 0" | "sortCompare c j m = 0" using assms(6) by linarith
  then show ?thesis
  proof cases
    case 1
    then have "sortCompare c m j < 0"
      using consistent_greater_less [OF assms(1,4,3)] by simp
    then show ?thesis using consistent_less_trans [OF assms(1,2,3,4) assms(5)] by simp
  next
    case 2
    then have mj: "sortCompare c m j = 0" using consistent_sym [OF assms(1,4,3)] by simp
    show ?thesis
    proof (rule ccontr)
      assume "\<not> sortCompare c p j < 0"
      then consider "sortCompare c p j = 0" | "sortCompare c p j > 0" by linarith
      then show False
      proof cases
        case 1
        then have "sortCompare c p m = 0"
          using consistent_eq_trans [OF assms(1,2,4,3) _ 2] by simp
        then show False using assms(5) by simp
      next
        case 2
        then have "sortCompare c j p < 0"
          using consistent_greater_less [OF assms(1,2,4)] by simp
        then have "sortCompare c j m < 0"
          using consistent_less_trans [OF assms(1,4,2,3) _ assms(5)] by simp
        then show False using \<open>sortCompare c j m = 0\<close> by simp
      qed
    qed
  qed
qed

text \<open>\<open>j \<le> m\<close> and \<open>m \<le> p\<close> give \<open>j \<le> p\<close>.\<close>

lemma consistent_le_trans:
  assumes "consistent c S" and "p \<in> S" and "m \<in> S" and "j \<in> S"
    and "\<not> sortCompare c p m < 0" and "\<not> sortCompare c m j < 0"
  shows "\<not> sortCompare c p j < 0"
  using consistent_less_le [OF assms(1,2,4,3) _ assms(6)] assms(5) by blast

lemma insertion_point_bounds:
  assumes "consistent c S" and "set ys \<subseteq> S" and "p \<in> S"
    and "sorted_wrt (\<lambda>x y. \<not> sortCompare c y x < 0) ys"
    and "left \<le> right" and "right \<le> length ys"
    and "\<forall>i<left. \<not> sortCompare c p (ys ! i) < 0"
    and "\<forall>i. right \<le> i \<and> i < length ys \<longrightarrow> sortCompare c p (ys ! i) < 0"
  shows "insertion_point c p ys left right \<le> length ys \<and>
     (\<forall>i<insertion_point c p ys left right. \<not> sortCompare c p (ys ! i) < 0) \<and>
     (\<forall>i. insertion_point c p ys left right \<le> i \<and> i < length ys \<longrightarrow>
        sortCompare c p (ys ! i) < 0)"
  using assms
proof (induction c p ys left right rule: insertion_point.induct)
  case (1 c p ys left right)
  note cons = "1.prems"(1) and sub = "1.prems"(2) and pS = "1.prems"(3)
    and srt = "1.prems"(4) and lr = "1.prems"(5) and rl = "1.prems"(6)
    and lo = "1.prems"(7) and hi = "1.prems"(8)
  show ?case
  proof (cases "left < right")
    case False
    then have "insertion_point c p ys left right = left"
      by (simp add: insertion_point.simps)
    moreover have "left = right" using False lr by simp
    ultimately show ?thesis using rl lo hi by auto
  next
    case True
    define mid where "mid = left + (right - left) div 2"
    have mid: "left \<le> mid" "mid < right" using True by (simp_all add: mid_def)
    then have midlen: "mid < length ys" using rl by simp
    have inS: "\<And>i. i < length ys \<Longrightarrow> ys ! i \<in> S" using sub by auto
    show ?thesis
    proof (cases "sortCompare c p (ys ! mid) < 0")
      case lt: True
      have eq: "insertion_point c p ys left right = insertion_point c p ys left mid"
        using True lt by (subst insertion_point.simps) (simp add: mid_def Let_def)
      have up: "\<forall>i. mid \<le> i \<and> i < length ys \<longrightarrow> sortCompare c p (ys ! i) < 0"
      proof (intro allI impI)
        fix i assume i: "mid \<le> i \<and> i < length ys"
        show "sortCompare c p (ys ! i) < 0"
        proof (cases "i = mid")
          case True
          then show ?thesis using lt by simp
        next
          case False
          then have "mid < i" using i by simp
          then have "\<not> sortCompare c (ys ! i) (ys ! mid) < 0"
            using srt i by (simp add: sorted_wrt_iff_nth_less)
          then show ?thesis
            using consistent_less_le [OF cons pS inS [OF midlen] inS lt] i by blast
        qed
      qed
      show ?thesis
        unfolding eq
        using "1.IH"(1) [OF True mid_def lt cons sub pS srt] mid rl lo up by simp
    next
      case ge: False
      have eq: "insertion_point c p ys left right = insertion_point c p ys (mid + 1) right"
        using True ge by (subst insertion_point.simps) (simp add: mid_def Let_def)
      have low: "\<forall>i<mid + 1. \<not> sortCompare c p (ys ! i) < 0"
      proof (intro allI impI)
        fix i assume i: "i < mid + 1"
        show "\<not> sortCompare c p (ys ! i) < 0"
        proof (cases "i = mid")
          case True
          then show ?thesis using ge by simp
        next
          case False
          then have "i < mid" using i by simp
          then have "\<not> sortCompare c (ys ! mid) (ys ! i) < 0"
            using srt midlen by (simp add: sorted_wrt_iff_nth_less)
          then show ?thesis
            using consistent_le_trans [OF cons pS inS [OF midlen] inS ge] \<open>i < mid\<close> midlen
            by simp
        qed
      qed
      show ?thesis
        unfolding eq
        using "1.IH"(2) [OF True mid_def ge cons sub pS srt] mid rl low hi by simp
    qed
  qed
qed

lemma mset_take_drop: "mset (take k ys) + mset (drop k ys) = mset ys"
  by (metis append_take_drop_id mset_append)

lemma filter_take_drop: "filter P (take k ys) @ filter P (drop k ys) = filter P ys"
  by (metis append_take_drop_id filter_append)

lemma mset_binary_insert: "mset (binary_insert c ys p) = add_mset p (mset ys)"
  by (simp add: binary_insert_def Let_def mset_take_drop)

lemma mset_foldl_binary_insert:
  "mset (foldl (binary_insert c) front rest) = mset front + mset rest"
  by (induction rest arbitrary: front) (simp_all add: mset_binary_insert)

lemma mset_array_sort: "mset (array_sort c xs) = mset xs"
proof (cases xs)
  case Nil
  then show ?thesis by (simp add: array_sort_def)
next
  case (Cons x0 xs1)
  show ?thesis
  proof (cases xs1)
    case Nil
    then show ?thesis using Cons by (simp add: array_sort_def)
  next
    case (Cons x1 rest)
    show ?thesis
      using Cons \<open>xs = x0 # xs1\<close>
      by (simp add: array_sort_def Let_def mset_foldl_binary_insert mset_take_drop)
  qed
qed

lemma set_array_sort: "set (array_sort c xs) = set xs"
  using mset_array_sort [of c xs] by (metis set_mset_mset)

lemma set_binary_insert: "set (binary_insert c ys p) = insert p (set ys)"
  using mset_binary_insert [of c ys p] by (metis set_mset_add_mset_insert set_mset_mset)

lemma binary_insert_split:
  assumes "consistent c S" and "set ys \<subseteq> S" and "p \<in> S"
    and "sorted_wrt (\<lambda>x y. \<not> sortCompare c y x < 0) ys"
  shows "\<exists>k \<le> length ys. binary_insert c ys p = take k ys @ p # drop k ys \<and>
     (\<forall>x \<in> set (take k ys). \<not> sortCompare c p x < 0) \<and>
     (\<forall>x \<in> set (drop k ys). sortCompare c p x < 0)"
proof -
  let ?k = "insertion_point c p ys 0 (length ys)"
  have b: "?k \<le> length ys \<and> (\<forall>i<?k. \<not> sortCompare c p (ys ! i) < 0) \<and>
     (\<forall>i. ?k \<le> i \<and> i < length ys \<longrightarrow> sortCompare c p (ys ! i) < 0)"
    by (rule insertion_point_bounds [OF assms]) simp_all
  have lo: "\<forall>x \<in> set (take ?k ys). \<not> sortCompare c p x < 0"
    using b by (auto simp: in_set_conv_nth)
  have hi: "\<forall>x \<in> set (drop ?k ys). sortCompare c p x < 0"
  proof
    fix x assume "x \<in> set (drop ?k ys)"
    then obtain i where "i < length ys - ?k" "x = ys ! (?k + i)"
      by (auto simp: in_set_conv_nth)
    then show "sortCompare c p x < 0" using b by simp
  qed
  show ?thesis
    using b lo hi by (intro exI [of _ ?k]) (simp add: binary_insert_def Let_def)
qed

lemma sorted_binary_insert:
  assumes "consistent c S" and "set ys \<subseteq> S" and "p \<in> S"
    and "sorted_wrt (\<lambda>x y. \<not> sortCompare c y x < 0) ys"
  shows "sorted_wrt (\<lambda>x y. \<not> sortCompare c y x < 0) (binary_insert c ys p)"
proof -
  obtain k where k: "binary_insert c ys p = take k ys @ p # drop k ys"
    "\<forall>x \<in> set (take k ys). \<not> sortCompare c p x < 0"
    "\<forall>x \<in> set (drop k ys). sortCompare c p x < 0"
    using binary_insert_split [OF assms] by blast
  have "sorted_wrt (\<lambda>x y. \<not> sortCompare c y x < 0) (take k ys @ drop k ys)"
    using assms(4) by simp
  then have s: "sorted_wrt (\<lambda>x y. \<not> sortCompare c y x < 0) (take k ys)"
    "sorted_wrt (\<lambda>x y. \<not> sortCompare c y x < 0) (drop k ys)"
    "\<forall>x \<in> set (take k ys). \<forall>y \<in> set (drop k ys). \<not> sortCompare c y x < 0"
    unfolding sorted_wrt_append by simp_all
  have after: "\<forall>x \<in> set (drop k ys). \<not> sortCompare c x p < 0"
  proof
    fix x assume x: "x \<in> set (drop k ys)"
    then have "x \<in> S" using assms(2) by (auto dest: in_set_dropD)
    then have "sortCompare c x p > 0"
      using consistent_less_greater [OF assms(1,3)] k(3) x by blast
    then show "\<not> sortCompare c x p < 0" by simp
  qed
  show ?thesis
    unfolding k(1) using s k(2) after by (auto simp: sorted_wrt_append)
qed

lemma filter_binary_insert:
  assumes "consistent c S" and "set ys \<subseteq> S" and "p \<in> S"
    and "sorted_wrt (\<lambda>x y. \<not> sortCompare c y x < 0) ys"
    and "\<And>y. y \<in> set ys \<Longrightarrow> P p \<Longrightarrow> P y \<Longrightarrow> sortCompare c p y = 0"
  shows "filter P (binary_insert c ys p) = filter P ys @ filter P [p]"
proof -
  obtain k where k: "binary_insert c ys p = take k ys @ p # drop k ys"
    "\<forall>x \<in> set (drop k ys). sortCompare c p x < 0"
    using binary_insert_split [OF assms(1-4)] by blast
  show ?thesis
  proof (cases "P p")
    case False
    show ?thesis using False unfolding k(1) by (simp add: filter_take_drop)
  next
    case True
    have "\<forall>x \<in> set (drop k ys). \<not> P x"
    proof
      fix x assume x: "x \<in> set (drop k ys)"
      then have "x \<in> set ys" by (rule in_set_dropD)
      then show "\<not> P x" using assms(5) [of x] True k(2) x by fastforce
    qed
    then have "filter P (drop k ys) = []" by (simp add: filter_empty_conv)
    moreover have "filter P (take k ys) @ filter P (drop k ys) = filter P ys"
      by (rule filter_take_drop)
    ultimately show ?thesis using True unfolding k(1) by simp
  qed
qed

lemma foldl_binary_insert:
  assumes "consistent c S" and "set front \<subseteq> S" and "set rest \<subseteq> S"
    and "sorted_wrt (\<lambda>x y. \<not> sortCompare c y x < 0) front"
    and "\<And>x y. x \<in> S \<Longrightarrow> y \<in> S \<Longrightarrow> P x \<Longrightarrow> P y \<Longrightarrow> sortCompare c x y = 0"
  shows "sorted_wrt (\<lambda>x y. \<not> sortCompare c y x < 0) (foldl (binary_insert c) front rest) \<and>
     filter P (foldl (binary_insert c) front rest) = filter P front @ filter P rest"
  using assms(2,3,4)
proof (induction rest arbitrary: front)
  case Nil
  then show ?case by simp
next
  case (Cons p rest)
  have pS: "p \<in> S" and rS: "set rest \<subseteq> S" using Cons.prems(2) by simp_all
  have s1: "sorted_wrt (\<lambda>x y. \<not> sortCompare c y x < 0) (binary_insert c front p)"
    by (rule sorted_binary_insert [OF assms(1) Cons.prems(1) pS Cons.prems(3)])
  have f1: "filter P (binary_insert c front p) = filter P front @ filter P [p]"
    using filter_binary_insert [OF assms(1) Cons.prems(1) pS Cons.prems(3), of P]
      assms(5) [OF pS] Cons.prems(1) by blast
  have set1: "set (binary_insert c front p) \<subseteq> S"
    using Cons.prems(1) pS by (simp add: set_binary_insert)
  show ?case
    using Cons.IH [OF set1 rS s1] f1 by simp
qed

lemma run_ascending:
  assumes "consistent c S" and "set (prev # rest) \<subseteq> S"
  shows "sorted_wrt (\<lambda>x y. \<not> sortCompare c y x < 0)
     (prev # take (run_more False c prev rest) rest)"
  using assms(2)
proof (induction rest arbitrary: prev)
  case Nil
  then show ?case by simp
next
  case (Cons cur rest)
  show ?case
  proof (cases "sortCompare c cur prev < 0")
    case True
    then show ?thesis by simp
  next
    case False
    have ih: "sorted_wrt (\<lambda>x y. \<not> sortCompare c y x < 0)
        (cur # take (run_more False c cur rest) rest)"
      using Cons.IH [of cur] Cons.prems by simp
    have "\<not> sortCompare c y prev < 0"
      if y: "y \<in> set (cur # take (run_more False c cur rest) rest)" for y
    proof (cases "y = cur")
      case True
      then show ?thesis using False by simp
    next
      case ne: False
      then have yt: "y \<in> set (take (run_more False c cur rest) rest)" using y by simp
      then have yS: "y \<in> S" using Cons.prems by (auto dest: in_set_takeD)
      have "\<not> sortCompare c y cur < 0" using ih yt by simp
      then show ?thesis
        using consistent_le_trans [of c S y cur prev] assms(1) yS False Cons.prems by simp
    qed
    then show ?thesis using False ih by (simp add: Let_def)
  qed
qed

lemma run_descending:
  assumes "consistent c S" and "set (prev # rest) \<subseteq> S"
  shows "sorted_wrt (\<lambda>x y. sortCompare c y x < 0)
     (prev # take (run_more True c prev rest) rest)"
  using assms(2)
proof (induction rest arbitrary: prev)
  case Nil
  then show ?case by simp
next
  case (Cons cur rest)
  show ?case
  proof (cases "sortCompare c cur prev < 0")
    case False
    then show ?thesis by simp
  next
    case True
    have ih: "sorted_wrt (\<lambda>x y. sortCompare c y x < 0)
        (cur # take (run_more True c cur rest) rest)"
      using Cons.IH [of cur] Cons.prems by simp
    have "sortCompare c y prev < 0"
      if y: "y \<in> set (cur # take (run_more True c cur rest) rest)" for y
    proof (cases "y = cur")
      case True
      then show ?thesis using \<open>sortCompare c cur prev < 0\<close> by simp
    next
      case ne: False
      then have yt: "y \<in> set (take (run_more True c cur rest) rest)" using y by simp
      then have yS: "y \<in> S" using Cons.prems by (auto dest: in_set_takeD)
      have "sortCompare c y cur < 0" using ih yt by simp
      then show ?thesis
        using consistent_less_trans [of c S y cur prev] assms(1) yS True Cons.prems by simp
    qed
    then show ?thesis using True ih by (simp add: Let_def)
  qed
qed

lemma filter_at_most_one:
  assumes "sorted_wrt R xs" and "\<And>x y. x \<in> set xs \<Longrightarrow> y \<in> set xs \<Longrightarrow> P x \<Longrightarrow> P y \<Longrightarrow> \<not> R x y"
  shows "rev (filter P xs) = filter P xs"
  using assms
proof (induction xs)
  case Nil
  then show ?case by simp
next
  case (Cons x xs)
  have ih: "rev (filter P xs) = filter P xs" using Cons by simp
  show ?case
  proof (cases "P x")
    case False
    then show ?thesis using ih by simp
  next
    case True
    have "\<forall>y \<in> set xs. \<not> P y"
      using Cons.prems True by fastforce
    then have "filter P xs = []" by (simp add: filter_empty_conv)
    then show ?thesis using True by simp
  qed
qed

lemma array_sort_consistent:
  assumes "consistent c (set xs)"
    and "\<And>x y. x \<in> set xs \<Longrightarrow> y \<in> set xs \<Longrightarrow> P x \<Longrightarrow> P y \<Longrightarrow> sortCompare c x y = 0"
  shows "sorted_wrt (\<lambda>x y. \<not> sortCompare c y x < 0) (array_sort c xs) \<and>
     filter P (array_sort c xs) = filter P xs"
proof (cases xs)
  case Nil
  then show ?thesis by (simp add: array_sort_def)
next
  case (Cons x0 xs1)
  show ?thesis
  proof (cases xs1)
    case Nil
    then show ?thesis using Cons by (simp add: array_sort_def)
  next
    case (Cons x1 rest)
    have xs: "xs = x0 # x1 # rest" using Cons \<open>xs = x0 # xs1\<close> by simp
    let ?S = "set xs"
    define d where "d = (sortCompare c x1 x0 < 0)"
    define n where "n = 2 + run_more d c x1 rest"
    define run where "run = (if d then rev (take n xs) else take n xs)"
    have res: "array_sort c xs = foldl (binary_insert c) run (drop n xs)"
      by (simp add: array_sort_def xs Let_def d_def n_def run_def)
    have tk: "take n xs = x0 # take (run_more d c x0 (x1 # rest)) (x1 # rest)"
      by (cases d) (simp_all add: n_def xs d_def Let_def)
    have sub: "set (x0 # x1 # rest) \<subseteq> ?S" by (simp add: xs)
    have tkS: "set (take n xs) \<subseteq> ?S" by (rule set_take_subset)
    have runS: "set run \<subseteq> ?S"
      using tkS by (simp add: run_def)
    have restS: "set (drop n xs) \<subseteq> ?S" by (rule set_drop_subset)
    have asc: "sorted_wrt (\<lambda>x y. \<not> sortCompare c y x < 0) (take n xs)" if "\<not> d"
    proof -
      have "sorted_wrt (\<lambda>x y. \<not> sortCompare c y x < 0)
          (x0 # take (run_more False c x0 (x1 # rest)) (x1 # rest))"
        by (rule run_ascending [OF assms(1) sub])
      moreover have "d = False" using that by simp
      ultimately show ?thesis unfolding tk by (simp only:)
    qed
    have desc: "sorted_wrt (\<lambda>x y. sortCompare c y x < 0) (take n xs)" if "d"
    proof -
      have "sorted_wrt (\<lambda>x y. sortCompare c y x < 0)
          (x0 # take (run_more True c x0 (x1 # rest)) (x1 # rest))"
        by (rule run_descending [OF assms(1) sub])
      moreover have "d = True" using that by simp
      ultimately show ?thesis unfolding tk by (simp only:)
    qed
    have run_ok: "sorted_wrt (\<lambda>x y. \<not> sortCompare c y x < 0) run \<and>
        filter P run = filter P (take n xs)"
    proof (cases d)
      case False
      then show ?thesis using asc by (simp add: run_def)
    next
      case True
      have "sorted_wrt (\<lambda>x y. sortCompare c x y < 0) (rev (take n xs))"
        using desc [OF True] by (simp add: sorted_wrt_rev)
      then have "sorted_wrt (\<lambda>x y. \<not> sortCompare c y x < 0) (rev (take n xs))"
      proof (rule sorted_wrt_mono_rel [rotated])
        fix x y
        assume x: "x \<in> set (rev (take n xs))" and y: "y \<in> set (rev (take n xs))"
          and lt: "sortCompare c x y < 0"
        have "x \<in> ?S" "y \<in> ?S" using x y tkS by auto
        then have "sortCompare c y x > 0"
          using consistent_less_greater [OF assms(1) _ _ lt] by blast
        then show "\<not> sortCompare c y x < 0" by simp
      qed
      moreover have "rev (filter P (take n xs)) = filter P (take n xs)"
      proof (rule filter_at_most_one [OF desc [OF True]])
        fix x y
        assume x: "x \<in> set (take n xs)" and y: "y \<in> set (take n xs)" and "P x" "P y"
        have "x \<in> ?S" "y \<in> ?S" using x y tkS by auto
        then have "sortCompare c y x = 0"
          using assms(2) [of y x] \<open>P x\<close> \<open>P y\<close> by blast
        then show "\<not> sortCompare c y x < 0" by simp
      qed
      ultimately show ?thesis using True by (simp add: run_def rev_filter)
    qed
    have "sorted_wrt (\<lambda>x y. \<not> sortCompare c y x < 0) (foldl (binary_insert c) run (drop n xs)) \<and>
        filter P (foldl (binary_insert c) run (drop n xs)) =
          filter P run @ filter P (drop n xs)"
      by (rule foldl_binary_insert [OF assms(1) runS restS]) (use run_ok assms(2) in blast)+
    moreover have "filter P (take n xs) @ filter P (drop n xs) = filter P xs"
      by (rule filter_take_drop)
    ultimately show ?thesis using run_ok by (simp add: res)
  qed
qed

text \<open>A comparator that is the difference of a key is consistent, and sorts by the key.\<close>

lemma consistent_key:
  assumes "\<And>x y. x \<in> S \<Longrightarrow> y \<in> S \<Longrightarrow> sortCompare c x y = k x - k y"
  shows "consistent c S"
  unfolding consistent_def using assms by auto

lemma consistent_reverse:
  assumes "consistent c S"
  shows "consistent (\<lambda>a b. c b a) S"
proof -
  have r: "sortCompare (\<lambda>a b. c b a) x y = sortCompare c y x" for x y
    by (simp add: sortCompare_def)
  show ?thesis
    unfolding consistent_def r
    using consistent_refl [OF assms] consistent_sym [OF assms] consistent_eq_trans [OF assms]
      consistent_less_trans [OF assms] consistent_greater_trans [OF assms]
    by blast
qed

lemma sorted_array_sort:
  assumes "\<And>x y. x \<in> set xs \<Longrightarrow> y \<in> set xs \<Longrightarrow> sortCompare c x y = k x - k y"
  shows "sorted_wrt (\<lambda>a b. (k a :: real) \<le> k b) (array_sort c xs)"
proof -
  have "consistent c (set xs)" using assms by (rule consistent_key)
  then have "sorted_wrt (\<lambda>x y. \<not> sortCompare c y x < 0) (array_sort c xs)"
    using array_sort_consistent [of c xs "\<lambda>x. False"] by simp
  then show ?thesis
  proof (rule sorted_wrt_mono_rel [rotated])
    fix x y
    assume "x \<in> set (array_sort c xs)" "y \<in> set (array_sort c xs)"
      and "\<not> sortCompare c y x < 0"
    then show "k x \<le> k y" using assms [of y x] by (simp add: set_array_sort)
  qed
qed

text \<open>
  The comparators of the sort keys are consistent on tasks whose keys are numbers: the two
  rating keys on all tasks, the two priority keys on tasks whose priorities are in the
  table, the two date keys on tasks whose \<open>createdAt\<close> is a valid date.
\<close>

lemma comparefn_consistent:
  assumes "comparefn e s = Some cmp" and "s \<noteq> ''title''" and "s \<noteq> ''title-desc''"
    and "\<And>t. t \<in> S \<Longrightarrow> \<exists>v. parseDate e (createdAt t) = Some v"
    and "\<And>t. t \<in> S \<Longrightarrow> \<exists>v. priorityOrder (priority t) = Some v"
  shows "consistent cmp S"
proof -
  let ?d = "\<lambda>t. the (parseDate e (createdAt t))"
  let ?p = "\<lambda>t. the (priorityOrder (priority t))"
  let ?r = "\<lambda>t. or_number (rating t) 0"
  have d: "sortCompare (\<lambda>a b. minus_num (parseDate e (createdAt a)) (parseDate e (createdAt b))) x y
      = ?d x - ?d y" if "x \<in> S" "y \<in> S" for x y
    using assms(4) [OF that(1)] assms(4) [OF that(2)]
    by (auto simp: sortCompare_def minus_num_def)
  have p: "sortCompare (\<lambda>a b. minus_num (priorityOrder (priority a)) (priorityOrder (priority b))) x y
      = ?p x - ?p y" if "x \<in> S" "y \<in> S" for x y
    using assms(5) [OF that(1)] assms(5) [OF that(2)]
    by (auto simp: sortCompare_def minus_num_def)
  have r: "sortCompare (\<lambda>a b. Some (?r a - ?r b)) x y = ?r x - ?r y" for x y
    by (simp add: sortCompare_def)
  have da: "consistent (\<lambda>a b. minus_num (parseDate e (createdAt a)) (parseDate e (createdAt b))) S"
    using d by (rule consistent_key)
  have pa: "consistent (\<lambda>a b. minus_num (priorityOrder (priority a)) (priorityOrder (priority b))) S"
    using p by (rule consistent_key)
  have ra: "consistent (\<lambda>a b. Some (?r a - ?r b)) S"
    using r by (rule consistent_key)
  consider "s = ''date''" | "s = ''date-asc''" | "s = ''priority''" | "s = ''priority-asc''"
    | "s = ''rating''" | "s = ''rating-asc''"
    using assms(1,2,3) by (auto simp: comparefn_def split: if_splits)
  then show ?thesis
  proof cases
    case 1
    then have "cmp = (\<lambda>a b. minus_num (parseDate e (createdAt b)) (parseDate e (createdAt a)))"
      using assms(1) by (simp add: comparefn_def)
    then show ?thesis using consistent_reverse [OF da] by simp
  next
    case 2
    then have "cmp = (\<lambda>a b. minus_num (parseDate e (createdAt a)) (parseDate e (createdAt b)))"
      using assms(1) by (simp add: comparefn_def)
    then show ?thesis using da by simp
  next
    case 3
    then have "cmp = (\<lambda>a b. minus_num (priorityOrder (priority b)) (priorityOrder (priority a)))"
      using assms(1) by (simp add: comparefn_def)
    then show ?thesis using consistent_reverse [OF pa] by simp
  next
    case 4
    then have "cmp = (\<lambda>a b. minus_num (priorityOrder (priority a)) (priorityOrder (priority b)))"
      using assms(1) by (simp add: comparefn_def)
    then show ?thesis using pa by simp
  next
    case 5
    then have "cmp = (\<lambda>a b. Some (?r b - ?r a))"
      using assms(1) by (simp add: comparefn_def)
    then show ?thesis using consistent_reverse [OF ra] by simp
  next
    case 6
    then have "cmp = (\<lambda>a b. Some (?r a - ?r b))"
      using assms(1) by (simp add: comparefn_def)
    then show ?thesis using ra by simp
  qed
qed

lemma set_filtered: "set (filtered f xs) \<subseteq> set xs"
  by (auto simp: filtered_def Let_def split: label_filter.splits option.splits if_splits)

lemma forEach_column_fresh:
  assumes "stored h ts" and "forEach_column e f ts h = (res, h')"
  shows "list_all (\<lambda>(c, a'). length h \<le> a' \<and> a' < length h') res"
  using assms
proof (induction ts arbitrary: h res h')
  case Nil
  then show ?case by simp
next
  case (Cons ca rest)
  obtain c0 a0 where ca: "ca = (c0, a0)" by (cases ca)
  obtain a1 h1 where p: "processColumn e f h a0 = (a1, h1)" by fastforce
  obtain res1 h2 where r: "forEach_column e f rest h1 = (res1, h2)" by fastforce
  have a0: "a0 < length h" and st: "stored h rest"
    using Cons.prems(1) by (simp_all add: stored_def ca)
  have hd: "length h \<le> a1" "a1 < length h1"
    using processColumn_holds [OF a0, of e f] p by (simp_all add: holds_def)
  have st1: "stored h1 rest"
    using st hd by (auto simp: stored_def list_all_iff)
  have le2: "length h1 \<le> length h2"
    using forEach_column_lookup [OF st1 r] take_length_le by blast
  have "list_all (\<lambda>(c, a'). length h1 \<le> a' \<and> a' < length h2) res1"
    using Cons.IH [OF st1 r] .
  then have "list_all (\<lambda>(c, a'). length h \<le> a' \<and> a' < length h2) res1"
    using hd by (auto simp: list_all_iff)
  moreover have "res = (c0, a1) # res1" and "h' = h2"
    using Cons.prems(2) by (simp_all add: ca p r)
  ultimately show ?case using hd le2 by simp
qed

lemma filtered_all_set:
  assumes "s \<noteq> []" and "p \<noteq> []"
  shows "filtered \<lparr>f_search = s, f_label = ManyLabels ls, f_priority = Some p, f_sort = k\<rparr> xs =
     filter (\<lambda>t. matchesSearch s t \<and> matchesLabels ls t \<and> priority t = p) xs"
  using assms by (auto simp: filtered_def intro: filter_cong)

lemma includes_str_sublist: "includes_str hay needle = sublist needle hay"
  by (induction hay) (auto simp: sublist_Cons_right)

lemma mset_projected: "mset (projected e f xs) = mset (filtered f xs)"
  by (simp add: projected_def mset_array_sort split: option.splits)

lemma priorityOrder_cases:
  assumes "p \<in> {''Critical'', ''High'', ''Medium'', ''Low''}"
  shows "\<exists>r. priorityOrder p = Some r"
  using assms by (auto simp: priorityOrder_def)

section \<open>The projected view: filters\<close>

text \<open>
  Claim C1. With a search string, an array of label ids and a priority all set in the
  filter, the projected array of a column holds exactly the stored tasks of that column
  that pass all three tests together, each as often as it is stored: the lower-cased
  search string occurs in the lower-cased title or in the lower-cased details, the task
  has labels and one of them is in the array, and the task's priority is the filter's.
\<close>


theorem filter_composition:
  assumes "stored h ts" and "processedTasks e f h ts = (res, h')" and "map_of ts c = Some a"
    and "f_search f = s" and "s \<noteq> []" and "f_label f = ManyLabels ls"
    and "f_priority f = Some p" and "p \<noteq> []"
  shows "\<exists>a'. map_of res c = Some a' \<and>
     mset (h' ! a') =
       mset (filter (\<lambda>t. (sublist (toLowerCase s) (toLowerCase (title t)) \<or>
                            sublist (toLowerCase s) (toLowerCase (details t))) \<and>
                           (case labels t of None \<Rightarrow> False
                            | Some taskLabels \<Rightarrow> set taskLabels \<inter> set ls \<noteq> {}) \<and>
                           priority t = p) (h ! a))"
proof -
  obtain a' where a': "map_of res c = Some a'" "h' ! a' = projected e f (h ! a)"
    using processedTasks_lookup [OF assms(1,2,3)] by blast
  have f: "f = \<lparr>f_search = s, f_label = ManyLabels ls, f_priority = Some p, f_sort = f_sort f\<rparr>"
    using assms(4,6,7) by simp
  have "filtered f (h ! a) =
      filter (\<lambda>t. matchesSearch s t \<and> matchesLabels ls t \<and> priority t = p) (h ! a)"
    using filtered_all_set [OF assms(5,8), of ls "f_sort f" "h ! a"] f by simp
  also have "\<dots> = filter (\<lambda>t. (sublist (toLowerCase s) (toLowerCase (title t)) \<or>
                            sublist (toLowerCase s) (toLowerCase (details t))) \<and>
                           (case labels t of None \<Rightarrow> False
                            | Some taskLabels \<Rightarrow> set taskLabels \<inter> set ls \<noteq> {}) \<and>
                           priority t = p) (h ! a)"
    by (rule filter_cong)
      (auto simp: matchesSearch_def matchesLabels_def includes_str_sublist list_ex_iff
        split: option.splits)
  finally show ?thesis using a' by (simp add: mset_projected)
qed

theorem filter_composition_witness:
  "\<exists>a'. map_of (fst (processedTasks sample_env sample_filters sample_heap sample_columns))
          ''backlog'' = Some a' \<and>
        mset (snd (processedTasks sample_env sample_filters sample_heap sample_columns) ! a') =
          mset [T1, T2]"
proof -
  have st: "stored sample_heap sample_columns"
    by (simp add: stored_def sample_heap_def sample_columns_def)
  have m: "map_of sample_columns ''backlog'' = Some 0"
    by (simp add: sample_columns_def)
  have low: "toLowerCase ''sql'' = ''sql''"
    by (simp add: toLowerCase_def lower_char_def)
  have sel: "filter (\<lambda>t. (sublist (toLowerCase ''sql'') (toLowerCase (title t)) \<or>
                            sublist (toLowerCase ''sql'') (toLowerCase (details t))) \<and>
                           (case labels t of None \<Rightarrow> False
                            | Some taskLabels \<Rightarrow> set taskLabels \<inter> set [''lbl-A''] \<noteq> {}) \<and>
                           priority t = ''High'') (sample_heap ! 0) = [T1, T2]"
    unfolding includes_str_sublist [symmetric] low
    by (simp add: sample_heap_def T1_def T2_def T3_def T4_def sample_task_def
        toLowerCase_def lower_char_def)
  show ?thesis
    using filter_composition [OF st _ m, of sample_env sample_filters
        "fst (processedTasks sample_env sample_filters sample_heap sample_columns)"
        "snd (processedTasks sample_env sample_filters sample_heap sample_columns)"
        "''sql''" "[''lbl-A'']" "''High''"]
    by (simp add: sel) (simp add: sample_filters_def)
qed

section \<open>The projected view: sorting\<close>

text \<open>
  Claim C2, as amended. When the comparator the sort key selects is consistent on the
  tasks of a column that pass the filters (the condition under which ECMAScript fixes the
  result of \<open>sort\<close>; \<open>comparefn_consistent\<close> gives the keys and tasks for which it holds),
  stored tasks of the column that compare equal to each other under it (the comparator
  gives 0 for every pair of them, as for two tasks of priority High under the key
  \<open>priority\<close>) stand in the projected array in the order they had before sorting, which
  is their order among the filtered tasks of the column. \<open>P\<close> picks the tasks in question.
\<close>


theorem sort_stability:
  assumes "stored h ts" and "processedTasks e f h ts = (res, h')" and "map_of ts c = Some a"
    and "comparefn e (f_sort f) = Some cmp"
    and "consistent cmp (set (filtered f (h ! a)))"
    and "\<forall>x \<in> set (h ! a). \<forall>y \<in> set (h ! a). P x \<longrightarrow> P y \<longrightarrow> sortCompare cmp x y = 0"
  shows "\<exists>a'. map_of res c = Some a' \<and> filter P (h' ! a') = filter P (filtered f (h ! a))"
proof -
  obtain a' where a': "map_of res c = Some a'" "h' ! a' = projected e f (h ! a)"
    using processedTasks_lookup [OF assms(1,2,3)] by blast
  have "\<And>x y. x \<in> set (filtered f (h ! a)) \<Longrightarrow> y \<in> set (filtered f (h ! a)) \<Longrightarrow>
      P x \<Longrightarrow> P y \<Longrightarrow> sortCompare cmp x y = 0"
    using assms(6) set_filtered [of f "h ! a"] by (simp add: subset_iff)
  then have "filter P (array_sort cmp (filtered f (h ! a))) = filter P (filtered f (h ! a))"
    using array_sort_consistent [OF assms(5), of P] by blast
  then show ?thesis
    using a' assms(4) by (simp add: projected_def)
qed

theorem sort_stability_witness:
  "\<exists>a'. map_of (fst (processedTasks sample_env (sample_filters\<lparr>f_search := [], f_priority := None\<rparr>)
            sample_heap sample_columns)) ''backlog'' = Some a' \<and>
        filter (\<lambda>t. priority t = ''High'')
          (snd (processedTasks sample_env (sample_filters\<lparr>f_search := [], f_priority := None\<rparr>)
            sample_heap sample_columns) ! a') = [T1, T2]"
proof -
  let ?f = "sample_filters\<lparr>f_search := [], f_priority := None\<rparr>"
  let ?cmp = "\<lambda>a b. minus_num (priorityOrder (priority b)) (priorityOrder (priority a))"
  have st: "stored sample_heap sample_columns"
    by (simp add: stored_def sample_heap_def sample_columns_def)
  have m: "map_of sample_columns ''backlog'' = Some 0"
    by (simp add: sample_columns_def)
  have c: "comparefn sample_env (f_sort ?f) = Some ?cmp"
    by (simp add: comparefn_def sample_filters_def)
  have xs: "filtered ?f (sample_heap ! 0) = [T1, T2, T3, T4]"
    by (simp add: filtered_def sample_filters_def matchesLabels_def sample_heap_def
        T1_def T2_def T3_def T4_def sample_task_def)
  have co: "consistent ?cmp (set (filtered ?f (sample_heap ! 0)))"
  proof (rule comparefn_consistent [OF c])
    show "f_sort ?f \<noteq> ''title''" and "f_sort ?f \<noteq> ''title-desc''"
      by (simp_all add: sample_filters_def)
    fix t
    assume "t \<in> set (filtered ?f (sample_heap ! 0))"
    then have t: "t = T1 \<or> t = T2 \<or> t = T3 \<or> t = T4" by (simp add: xs)
    then show "\<exists>v. parseDate sample_env (createdAt t) = Some v"
      by (auto simp: sample_env_def T1_def T2_def T3_def T4_def sample_task_def)
    show "\<exists>v. priorityOrder (priority t) = Some v"
      using t by (auto simp: priorityOrder_def T1_def T2_def T3_def T4_def sample_task_def)
  qed
  have eq: "\<forall>x \<in> set (sample_heap ! 0). \<forall>y \<in> set (sample_heap ! 0).
      priority x = ''High'' \<longrightarrow> priority y = ''High'' \<longrightarrow> sortCompare ?cmp x y = 0"
    by (simp add: sortCompare_def minus_num_def priorityOrder_def)
  have sel: "filter (\<lambda>t. priority t = ''High'') (filtered ?f (sample_heap ! 0)) = [T1, T2]"
    unfolding xs by (simp add: T1_def T2_def T3_def T4_def sample_task_def)
  show ?thesis
    using sort_stability [OF st _ m c co eq, of
        "fst (processedTasks sample_env ?f sample_heap sample_columns)"
        "snd (processedTasks sample_env ?f sample_heap sample_columns)"]
    by (simp add: sel)
qed

text \<open>
  Claim C2 as first stated fails for a comparator that is not consistent. Under the key
  \<open>priority-asc\<close> a priority outside the table makes every comparison with its task
  \<open>NaN\<close>, which \<open>sort\<close> reads as 0. The tasks 5 and 7 both have priority High and compare
  equal, and 5 stands before 7 in the column; the projected array has 7 before 5.
\<close>

theorem sort_reverses_equal_keys:
  "stored unranked_heap [(''backlog'', 0)] \<and>
   comparefn sample_env (f_sort priority_asc_filters) =
     Some (\<lambda>a b. minus_num (priorityOrder (priority a)) (priorityOrder (priority b))) \<and>
   sortCompare (\<lambda>a b. minus_num (priorityOrder (priority a)) (priorityOrder (priority b))) U5 U7 = 0 \<and>
   sortCompare (\<lambda>a b. minus_num (priorityOrder (priority a)) (priorityOrder (priority b))) U7 U5 = 0 \<and>
   filter (\<lambda>t. priority t = ''High'') (filtered priority_asc_filters (unranked_heap ! 0)) = [U5, U7] \<and>
   processedTasks sample_env priority_asc_filters unranked_heap [(''backlog'', 0)] =
     ([(''backlog'', 1)], unranked_heap @ [[U6, U7, U1, U2, U3, U4, U5]]) \<and>
   filter (\<lambda>t. priority t = ''High'') [U6, U7, U1, U2, U3, U4, U5] = [U7, U5] \<and>
   [U7, U5] \<noteq> [U5, U7]"
proof -
  have 1: "stored unranked_heap [(''backlog'', 0)]"
    by (simp add: stored_def unranked_heap_def)
  have 2: "comparefn sample_env (f_sort priority_asc_filters) =
     Some (\<lambda>a b. minus_num (priorityOrder (priority a)) (priorityOrder (priority b)))"
    by (simp add: comparefn_def priority_asc_filters_def)
  have 3: "sortCompare (\<lambda>a b. minus_num (priorityOrder (priority a)) (priorityOrder (priority b))) U5 U7 = 0"
    "sortCompare (\<lambda>a b. minus_num (priorityOrder (priority a)) (priorityOrder (priority b))) U7 U5 = 0"
    by (simp_all add: sortCompare_def minus_num_def priorityOrder_def U5_def U7_def sample_task_def)
  have 4: "filter (\<lambda>t. priority t = ''High'') (filtered priority_asc_filters (unranked_heap ! 0)) = [U5, U7]"
    by (simp add: filtered_def priority_asc_filters_def unranked_heap_def
        U1_def U2_def U3_def U4_def U5_def U6_def U7_def sample_task_def)
  have 5: "processedTasks sample_env priority_asc_filters unranked_heap [(''backlog'', 0)] =
     ([(''backlog'', 1)], unranked_heap @ [[U6, U7, U1, U2, U3, U4, U5]])"
    by (simp add: processedTasks_def processColumn_def alloc_def
        sort_in_place_def array_sort_def binary_insert_def insertion_point.simps Let_def
        comparefn_def priority_asc_filters_def unranked_heap_def
        sortCompare_def minus_num_def priorityOrder_def
        U1_def U2_def U3_def U4_def U5_def U6_def U7_def sample_task_def)
  have 6: "filter (\<lambda>t. priority t = ''High'') [U6, U7, U1, U2, U3, U4, U5] = [U7, U5]"
    by (simp add: U1_def U2_def U3_def U4_def U5_def U6_def U7_def sample_task_def)
  have 7: "[U7, U5] \<noteq> [U5, U7]"
    by (simp add: U5_def U7_def sample_task_def)
  show ?thesis using 1 2 3 4 5 6 7 by blast
qed

text \<open>
  Claim C7. The priority table ranks Critical 4, High 3, Medium 2 and Low 1. When every
  stored task of a column has one of these four priorities, the projected array holds the
  tasks that pass the filters, by descending rank under the sort key \<open>priority\<close> and by
  ascending rank under \<open>priority-asc\<close>.
\<close>


theorem priority_sort_order:
  assumes "stored h ts" and "processedTasks e f h ts = (res, h')" and "map_of ts c = Some a"
    and "\<forall>t \<in> set (h ! a). priority t \<in> {''Critical'', ''High'', ''Medium'', ''Low''}"
  shows "priorityOrder ''Critical'' = Some 4 \<and> priorityOrder ''High'' = Some 3 \<and>
     priorityOrder ''Medium'' = Some 2 \<and> priorityOrder ''Low'' = Some 1 \<and>
     (\<exists>a'. map_of res c = Some a' \<and> mset (h' ! a') = mset (filtered f (h ! a)) \<and>
        (f_sort f = ''priority'' \<longrightarrow>
           sorted_wrt (\<lambda>x y. \<exists>rx ry. priorityOrder (priority x) = Some rx \<and>
              priorityOrder (priority y) = Some ry \<and> ry \<le> rx) (h' ! a')) \<and>
        (f_sort f = ''priority-asc'' \<longrightarrow>
           sorted_wrt (\<lambda>x y. \<exists>rx ry. priorityOrder (priority x) = Some rx \<and>
              priorityOrder (priority y) = Some ry \<and> rx \<le> ry) (h' ! a')))"
proof -
  obtain a' where a': "map_of res c = Some a'" "h' ! a' = projected e f (h ! a)"
    using processedTasks_lookup [OF assms(1,2,3)] by blast
  let ?xs = "filtered f (h ! a)"
  let ?k = "\<lambda>t. the (priorityOrder (priority t))"
  have known: "\<exists>r. priorityOrder (priority t) = Some r" if "t \<in> set ?xs" for t
    using that assms(4) set_filtered [of f "h ! a"] priorityOrder_cases by blast
  have desc: "sorted_wrt (\<lambda>x y. \<exists>rx ry. priorityOrder (priority x) = Some rx \<and>
      priorityOrder (priority y) = Some ry \<and> ry \<le> rx) (h' ! a')"
    if s: "f_sort f = ''priority''"
  proof -
    let ?c = "\<lambda>a b. minus_num (priorityOrder (priority b)) (priorityOrder (priority a))"
    have p: "h' ! a' = array_sort ?c ?xs"
      using a'(2) s by (simp add: projected_def comparefn_def)
    have "sortCompare ?c x y = - ?k x - - ?k y"
      if mx: "x \<in> set ?xs" and my: "y \<in> set ?xs" for x y
    proof -
      obtain rx ry where "priorityOrder (priority x) = Some rx"
        "priorityOrder (priority y) = Some ry"
        using known [OF mx] known [OF my] by blast
      then show ?thesis by (simp add: sortCompare_def minus_num_def)
    qed
    then have "sorted_wrt (\<lambda>x y. - ?k x \<le> - ?k y) (array_sort ?c ?xs)"
      by (rule sorted_array_sort)
    then show ?thesis
      unfolding p
    proof (rule sorted_wrt_mono_rel [rotated])
      fix x y
      assume "x \<in> set (array_sort ?c ?xs)" "y \<in> set (array_sort ?c ?xs)" "- ?k x \<le> - ?k y"
      then show "\<exists>rx ry. priorityOrder (priority x) = Some rx \<and>
          priorityOrder (priority y) = Some ry \<and> ry \<le> rx"
        using known [of x] known [of y] by (auto simp: set_array_sort)
    qed
  qed
  have asc: "sorted_wrt (\<lambda>x y. \<exists>rx ry. priorityOrder (priority x) = Some rx \<and>
      priorityOrder (priority y) = Some ry \<and> rx \<le> ry) (h' ! a')"
    if s: "f_sort f = ''priority-asc''"
  proof -
    let ?c = "\<lambda>a b. minus_num (priorityOrder (priority a)) (priorityOrder (priority b))"
    have p: "h' ! a' = array_sort ?c ?xs"
      using a'(2) s by (simp add: projected_def comparefn_def)
    have "sortCompare ?c x y = ?k x - ?k y"
      if mx: "x \<in> set ?xs" and my: "y \<in> set ?xs" for x y
    proof -
      obtain rx ry where "priorityOrder (priority x) = Some rx"
        "priorityOrder (priority y) = Some ry"
        using known [OF mx] known [OF my] by blast
      then show ?thesis by (simp add: sortCompare_def minus_num_def)
    qed
    then have "sorted_wrt (\<lambda>x y. ?k x \<le> ?k y) (array_sort ?c ?xs)"
      by (rule sorted_array_sort)
    then show ?thesis
      unfolding p
    proof (rule sorted_wrt_mono_rel [rotated])
      fix x y
      assume "x \<in> set (array_sort ?c ?xs)" "y \<in> set (array_sort ?c ?xs)" "?k x \<le> ?k y"
      then show "\<exists>rx ry. priorityOrder (priority x) = Some rx \<and>
          priorityOrder (priority y) = Some ry \<and> rx \<le> ry"
        using known [of x] known [of y] by (auto simp: set_array_sort)
    qed
  qed
  have tab: "priorityOrder ''Critical'' = Some 4" "priorityOrder ''High'' = Some 3"
    "priorityOrder ''Medium'' = Some 2" "priorityOrder ''Low'' = Some 1"
    by (simp_all add: priorityOrder_def)
  show ?thesis
    using tab a' desc asc by (simp add: mset_projected)
qed

theorem priority_sort_order_witness:
  "(\<exists>a'. map_of (fst (processedTasks sample_env
        (sample_filters\<lparr>f_search := [], f_priority := None\<rparr>) sample_heap sample_columns))
        ''backlog'' = Some a' \<and>
      sorted_wrt (\<lambda>x y. \<exists>rx ry. priorityOrder (priority x) = Some rx \<and>
          priorityOrder (priority y) = Some ry \<and> ry \<le> rx)
        (snd (processedTasks sample_env
          (sample_filters\<lparr>f_search := [], f_priority := None\<rparr>) sample_heap sample_columns) ! a')) \<and>
   (\<exists>a'. map_of (fst (processedTasks sample_env
        (sample_filters\<lparr>f_search := [], f_priority := None, f_sort := ''priority-asc''\<rparr>)
        sample_heap sample_columns)) ''backlog'' = Some a' \<and>
      sorted_wrt (\<lambda>x y. \<exists>rx ry. priorityOrder (priority x) = Some rx \<and>
          priorityOrder (priority y) = Some ry \<and> rx \<le> ry)
        (snd (processedTasks sample_env
          (sample_filters\<lparr>f_search := [], f_priority := None, f_sort := ''priority-asc''\<rparr>)
          sample_heap sample_columns) ! a'))"
proof -
  let ?f = "sample_filters\<lparr>f_search := [], f_priority := None\<rparr>"
  let ?g = "sample_filters\<lparr>f_search := [], f_priority := None, f_sort := ''priority-asc''\<rparr>"
  have st: "stored sample_heap sample_columns"
    by (simp add: stored_def sample_heap_def sample_columns_def)
  have m: "map_of sample_columns ''backlog'' = Some 0"
    by (simp add: sample_columns_def)
  have pr: "\<forall>t \<in> set (sample_heap ! 0). priority t \<in> {''Critical'', ''High'', ''Medium'', ''Low''}"
    by (simp add: sample_heap_def T1_def T2_def T3_def T4_def sample_task_def)
  have sf: "f_sort ?f = ''priority''" and sg: "f_sort ?g = ''priority-asc''"
    by (simp_all add: sample_filters_def)
  have d: "\<exists>a'. map_of (fst (processedTasks sample_env ?f sample_heap sample_columns))
        ''backlog'' = Some a' \<and>
      sorted_wrt (\<lambda>x y. \<exists>rx ry. priorityOrder (priority x) = Some rx \<and>
          priorityOrder (priority y) = Some ry \<and> ry \<le> rx)
        (snd (processedTasks sample_env ?f sample_heap sample_columns) ! a')"
    using priority_sort_order [OF st _ m pr, of sample_env ?f
        "fst (processedTasks sample_env ?f sample_heap sample_columns)"
        "snd (processedTasks sample_env ?f sample_heap sample_columns)"] sf
    by auto
  have a: "\<exists>a'. map_of (fst (processedTasks sample_env ?g sample_heap sample_columns))
        ''backlog'' = Some a' \<and>
      sorted_wrt (\<lambda>x y. \<exists>rx ry. priorityOrder (priority x) = Some rx \<and>
          priorityOrder (priority y) = Some ry \<and> rx \<le> ry)
        (snd (processedTasks sample_env ?g sample_heap sample_columns) ! a')"
    using priority_sort_order [OF st _ m pr, of sample_env ?g
        "fst (processedTasks sample_env ?g sample_heap sample_columns)"
        "snd (processedTasks sample_env ?g sample_heap sample_columns)"] sg
    by auto
  show ?thesis using d a by blast
qed

section \<open>The projected view: the stored arrays\<close>

text \<open>
  Claim C4. Computing the projected view leaves every array that existed before as it
  was, so each column's stored array has the same tasks in the same order afterwards.
  The result has the store's column ids, and each array it returns is a new one: its
  address was not in use before, and so it is no array of the store.
\<close>


theorem projection_frame:
  assumes "stored h ts" and "processedTasks e f h ts = (res, h')"
  shows "take (length h) h' = h \<and> list_all (\<lambda>(c, a). h' ! a = h ! a) ts \<and>
     map fst res = map fst ts \<and>
     list_all (\<lambda>(c, a'). length h \<le> a' \<and> a' < length h' \<and> a' \<notin> snd ` set ts) res"
proof -
  have t: "take (length h) h' = h" and k: "map fst res = map fst ts"
    using processedTasks_frame [OF assms] by simp_all
  have old: "a < length h" if "(c, a) \<in> set ts" for c a
    using assms(1) that by (auto simp: stored_def list_all_iff)
  have same: "list_all (\<lambda>(c, a). h' ! a = h ! a) ts"
    using old take_nth_same [OF t] by (auto simp: list_all_iff)
  have fresh: "list_all (\<lambda>(c, a'). length h \<le> a' \<and> a' < length h') res"
    using forEach_column_fresh [OF assms(1)] assms(2) by (simp add: processedTasks_def)
  have "list_all (\<lambda>(c, a'). length h \<le> a' \<and> a' < length h' \<and> a' \<notin> snd ` set ts) res"
    using fresh old by (fastforce simp: list_all_iff)
  then show ?thesis using t k same by simp
qed

theorem projection_frame_witness:
  "processedTasks sample_env
     (sample_filters\<lparr>f_search := [], f_label := NoLabel, f_priority := None\<rparr>)
     sample_heap sample_columns =
     ([(''backlog'', 2), (''todo'', 3)], sample_heap @ [[T3, T1, T2, T4], []]) \<and>
   take (length sample_heap)
     (snd (processedTasks sample_env
       (sample_filters\<lparr>f_search := [], f_label := NoLabel, f_priority := None\<rparr>)
       sample_heap sample_columns)) = sample_heap \<and>
   list_all (\<lambda>(c, a'). length sample_heap \<le> a' \<and> a' \<notin> snd ` set sample_columns)
     (fst (processedTasks sample_env
       (sample_filters\<lparr>f_search := [], f_label := NoLabel, f_priority := None\<rparr>)
       sample_heap sample_columns))"
proof -
  let ?f = "sample_filters\<lparr>f_search := [], f_label := NoLabel, f_priority := None\<rparr>"
  have st: "stored sample_heap sample_columns"
    by (simp add: stored_def sample_heap_def sample_columns_def)
  have run: "processedTasks sample_env ?f sample_heap sample_columns =
     ([(''backlog'', 2), (''todo'', 3)], sample_heap @ [[T3, T1, T2, T4], []])"
    by (simp add: processedTasks_def processColumn_def alloc_def
        sort_in_place_def array_sort_def binary_insert_def insertion_point.simps Let_def
        comparefn_def sample_filters_def sample_heap_def
        sample_columns_def sortCompare_def minus_num_def priorityOrder_def
        T1_def T2_def T3_def T4_def sample_task_def)
  show ?thesis
    using projection_frame [OF st, of sample_env ?f
        "fst (processedTasks sample_env ?f sample_heap sample_columns)"
        "snd (processedTasks sample_env ?f sample_heap sample_columns)"]
      run
    by (simp add: list_all_iff)
qed

section \<open>Generated ids\<close>

subsection \<open>Rounding to a double\<close>

lemma round_even_of_int: "round_even (of_int n) = n"
  by (simp add: round_even_def)

lemma round_even_le_half:
  assumes "y < of_int n + 1 / 2"
  shows "round_even y \<le> n"
proof -
  have "\<lfloor>y\<rfloor> \<le> n" using assms by linarith
  then consider "\<lfloor>y\<rfloor> = n" | "\<lfloor>y\<rfloor> + 1 \<le> n" by linarith
  then show ?thesis
  proof cases
    case 1
    then have "y - of_int \<lfloor>y\<rfloor> < 1 / 2" using assms by simp
    then show ?thesis using 1 by (simp add: round_even_def Let_def)
  next
    case 2
    then show ?thesis by (simp add: round_even_def Let_def)
  qed
qed

lemma round_even_le:
  assumes "y \<le> of_int n"
  shows "round_even y \<le> n"
  by (rule round_even_le_half) (use assms in linarith)

lemma round_even_ge:
  assumes "of_int n \<le> y"
  shows "n \<le> round_even y"
proof -
  have "n \<le> \<lfloor>y\<rfloor>" using assms by linarith
  then show ?thesis by (simp add: round_even_def Let_def)
qed

lemma ulp_pos: "0 < ulp x"
  by (simp add: ulp_def)

lemma exponent_le:
  assumes "x \<noteq> 0" and "\<bar>x\<bar> < 2 powi (e + 1)"
  shows "\<lfloor>log 2 \<bar>x\<bar>\<rfloor> \<le> e"
proof -
  have "(2::real) powr real_of_int (e + 1) = 2 powi (e + 1)"
    by (rule powr_real_of_int') simp_all
  then have "\<bar>x\<bar> < 2 powr real_of_int (e + 1)"
    using assms(2) by (simp only:)
  then have "log 2 \<bar>x\<bar> < real_of_int (e + 1)"
    using assms(1) by (subst log_less_iff) simp_all
  then show ?thesis by linarith
qed

lemma exponent_ge:
  assumes "2 powi e \<le> \<bar>x\<bar>"
  shows "e \<le> \<lfloor>log 2 \<bar>x\<bar>\<rfloor>"
proof -
  have "0 < (2::real) powi e" by simp
  then have pos: "0 < \<bar>x\<bar>" using assms by linarith
  have "(2::real) powr real_of_int e = 2 powi e"
    by (rule powr_real_of_int') simp_all
  then have "2 powr real_of_int e \<le> \<bar>x\<bar>"
    using assms by (simp only:)
  then have "real_of_int e \<le> log 2 \<bar>x\<bar>"
    using pos by (subst le_log_iff) simp_all
  then show ?thesis by linarith
qed

text \<open>The distance between the doubles of the binade of \<open>x\<close>.\<close>

lemma ulp_eq:
  assumes "2 powi e \<le> \<bar>x\<bar>" and "\<bar>x\<bar> < 2 powi (e + 1)" and "- 1022 \<le> e"
  shows "ulp x = 2 powi (e - 52)"
proof -
  have "0 < (2::real) powi e" by simp
  then have "0 < \<bar>x\<bar>" using assms(1) by linarith
  then have "x \<noteq> 0" by auto
  then have "\<lfloor>log 2 \<bar>x\<bar>\<rfloor> = e"
    using exponent_le [OF _ assms(2)] exponent_ge [OF assms(1)] by simp
  then show ?thesis using assms(3) by (simp add: ulp_def)
qed

text \<open>
  Below 2 to the power \<open>e + 1\<close> the doubles are at most 2 to the power \<open>e - 52\<close> apart, so
  every multiple of that power is a multiple of the distance.
\<close>

lemma ulp_divides:
  assumes "x \<noteq> 0" and "\<bar>x\<bar> < 2 powi (e + 1)" and "- 1022 \<le> e"
  shows "\<exists>d::nat. 2 powi (e - 52) = ulp x * 2 ^ d"
proof -
  define m where "m = max \<lfloor>log 2 \<bar>x\<bar>\<rfloor> (- 1022) - 52"
  have le: "m \<le> e - 52"
    using exponent_le [OF assms(1,2)] assms(3) by (simp add: m_def)
  define d where "d = nat (e - 52 - m)"
  have u: "ulp x = 2 powi m" by (simp add: ulp_def m_def)
  have "e - 52 = m + int d" using le by (simp add: d_def)
  then have "(2::real) powi (e - 52) = 2 powi (m + int d)" by (simp only:)
  also have "\<dots> = 2 powi m * 2 powi int d"
    by (rule power_int_add) simp
  also have "\<dots> = ulp x * 2 ^ d"
    unfolding u by (simp only: power_int_of_nat)
  finally show ?thesis by blast
qed

lemma grid_point:
  assumes "x \<noteq> 0" and "\<bar>x\<bar> < 2 powi (e + 1)" and "- 1022 \<le> e"
  shows "\<exists>k::int. 2 powi (e - 52) * of_int n = ulp x * of_int k"
proof -
  obtain d :: nat where "2 powi (e - 52) = ulp x * 2 ^ d"
    using ulp_divides [OF assms] by blast
  then have "2 powi (e - 52) * of_int n = ulp x * of_int (2 ^ d * n)"
    by simp
  then show ?thesis by blast
qed

lemma to_double_le_grid:
  assumes "x \<noteq> 0" and "\<bar>x\<bar> < 2 powi (e + 1)" and "- 1022 \<le> e"
    and "x \<le> 2 powi (e - 52) * of_int n"
  shows "to_double x \<le> 2 powi (e - 52) * of_int n"
proof -
  obtain k :: int where k: "2 powi (e - 52) * of_int n = ulp x * of_int k"
    using grid_point [OF assms(1-3)] by blast
  have "x / ulp x \<le> of_int k"
    using assms(4) ulp_pos [of x] unfolding k by (simp add: pos_divide_le_eq mult.commute)
  then have "round_even (x / ulp x) \<le> k" by (rule round_even_le)
  then have "ulp x * of_int (round_even (x / ulp x)) \<le> ulp x * of_int k"
    using ulp_pos [of x] by simp
  then show ?thesis using assms(1) unfolding k by (simp add: to_double_def)
qed

lemma to_double_ge_grid:
  assumes "x \<noteq> 0" and "\<bar>x\<bar> < 2 powi (e + 1)" and "- 1022 \<le> e"
    and "2 powi (e - 52) * of_int n \<le> x"
  shows "2 powi (e - 52) * of_int n \<le> to_double x"
proof -
  obtain k :: int where k: "2 powi (e - 52) * of_int n = ulp x * of_int k"
    using grid_point [OF assms(1-3)] by blast
  have "of_int k \<le> x / ulp x"
    using assms(4) ulp_pos [of x] unfolding k by (simp add: pos_le_divide_eq mult.commute)
  then have "k \<le> round_even (x / ulp x)" by (rule round_even_ge)
  then have "ulp x * of_int k \<le> ulp x * of_int (round_even (x / ulp x))"
    using ulp_pos [of x] by simp
  then show ?thesis using assms(1) unfolding k by (simp add: to_double_def)
qed

lemma to_double_le_half:
  assumes "2 powi e \<le> \<bar>x\<bar>" and "\<bar>x\<bar> < 2 powi (e + 1)" and "- 1022 \<le> e"
    and "x < 2 powi (e - 52) * (of_int n + 1 / 2)"
  shows "to_double x \<le> 2 powi (e - 52) * of_int n"
proof -
  have u: "ulp x = 2 powi (e - 52)" by (rule ulp_eq [OF assms(1-3)])
  have "0 < (2::real) powi e" by simp
  then have "0 < \<bar>x\<bar>" using assms(1) by linarith
  then have "x \<noteq> 0" by auto
  have "x / ulp x < of_int n + 1 / 2"
    using assms(4) ulp_pos [of x] unfolding u by (simp add: pos_divide_less_eq mult.commute)
  then have "round_even (x / ulp x) \<le> n" by (rule round_even_le_half)
  then have le: "ulp x * of_int (round_even (x / ulp x)) \<le> ulp x * of_int n"
    using ulp_pos [of x] by simp
  have td: "to_double x = ulp x * of_int (round_even (x / ulp x))"
    using \<open>x \<noteq> 0\<close> by (simp add: to_double_def)
  show ?thesis unfolding td using le unfolding u .
qed

text \<open>A multiple of a power of 2 that fits in 53 bits is a double.\<close>

lemma is_double_grid:
  assumes "x = 2 powi (e - 52) * of_int n" and "\<bar>x\<bar> < 2 powi (e + 1)" and "- 1022 \<le> e"
  shows "is_double x"
proof (cases "x = 0")
  case True
  then show ?thesis by (simp add: is_double_def to_double_def)
next
  case False
  have "to_double x \<le> x"
    using to_double_le_grid [OF False assms(2,3), of n] assms(1) by simp
  moreover have "x \<le> to_double x"
    using to_double_ge_grid [OF False assms(2,3), of n] assms(1) by simp
  ultimately show ?thesis by (simp add: is_double_def)
qed

subsection \<open>The id of a new task\<close>

text \<open>The largest double below 1 is 1 less 2 to the power -53.\<close>

lemma double_below_one:
  assumes "is_double r" and "0 \<le> r" and "r < 1"
  shows "r \<le> 1 - 1 / 2 ^ 53"
proof (cases "r < 1 / 2")
  case True
  have "(1::real) / 2 \<le> 1 - 1 / 2 ^ 53" by simp
  then show ?thesis using True by linarith
next
  case False
  have u: "ulp r = 2 powi (- 1 - 52)"
    by (rule ulp_eq) (use False assms(2,3) in simp_all)
  define k where "k = round_even (r / ulp r)"
  have "r \<noteq> 0" using False by auto
  then have "to_double r = ulp r * of_int k" by (simp add: to_double_def k_def)
  then have r: "r = of_int k / 2 ^ 53"
    using assms(1) unfolding u by (simp add: is_double_def)
  then have "real_of_int k < 2 ^ 53" using assms(3) by simp
  then have "k \<le> 9007199254740991" by simp
  then have "real_of_int k \<le> 9007199254740991" by linarith
  then show ?thesis unfolding r by (simp add: field_simps)
qed

lemma product_range:
  assumes "is_double r" and "0 \<le> r" and "r < 1"
  shows "0 \<le> to_double (r * 9000) \<and> to_double (r * 9000) \<le> 9000 - 1 / 2 ^ 39"
proof (cases "r = 0")
  case True
  then show ?thesis by (simp add: to_double_def)
next
  case False
  define p where "p = r * 9000"
  have p0: "0 < p" using False assms(2) by (simp add: p_def)
  have "r \<le> 1 - 1 / 2 ^ 53" by (rule double_below_one [OF assms])
  then have pmax: "p \<le> 9000 - 9000 / 2 ^ 53" by (simp add: p_def)
  have p14: "\<bar>p\<bar> < 2 powi (13 + 1)" using pmax p0 by simp
  have "2 powi (13 - 52) * of_int 0 \<le> to_double p"
    by (rule to_double_ge_grid [OF _ p14]) (use p0 in simp_all)
  then have low: "0 \<le> to_double p" by simp
  have up: "to_double p \<le> 9000 - 1 / 2 ^ 39"
  proof (cases "p < 8192")
    case True
    have "to_double p \<le> 2 powi (12 - 52) * of_int (2 ^ 53)"
      by (rule to_double_le_grid) (use True p0 in simp_all)
    then have "to_double p \<le> 8192" by simp
    then show ?thesis by simp
  next
    case False
    have "to_double p \<le> 2 powi (13 - 52) * of_int (9000 * 2 ^ 39 - 1)"
      by (rule to_double_le_half) (use False p0 pmax in simp_all)
    then show ?thesis by simp
  qed
  show ?thesis using low up by (simp add: p_def)
qed

lemma generateId_range:
  assumes "is_double r" and "0 \<le> r" and "r < 1"
  shows "1000 \<le> generateId r \<and> generateId r \<le> 9999"
proof -
  define q where "q = 1000 + to_double (r * 9000)"
  have q: "1000 \<le> q" "q \<le> 10000 - 1 / 2 ^ 39"
    using product_range [OF assms] by (simp_all add: q_def)
  have q14: "\<bar>q\<bar> < 2 powi (13 + 1)" using q by simp
  have "2 powi (13 - 52) * of_int (1000 * 2 ^ 39) \<le> to_double q"
    by (rule to_double_ge_grid [OF _ q14]) (use q in simp_all)
  then have low: "1000 \<le> to_double q" by simp
  have "to_double q \<le> 2 powi (13 - 52) * of_int (10000 * 2 ^ 39 - 1)"
    by (rule to_double_le_grid [OF _ q14]) (use q in simp_all)
  then have "to_double q \<le> 10000 - 1 / 2 ^ 39" by simp
  then have up: "to_double q < 10000" by simp
  have "1000 \<le> \<lfloor>to_double q\<rfloor>" using low by linarith
  moreover have "\<lfloor>to_double q\<rfloor> \<le> 9999" using up by linarith
  ultimately show ?thesis by (simp add: generateId_def q_def)
qed

lemma to_double_between:
  assumes "real_of_int a \<le> 2 * x" and "2 * x \<le> real_of_int b" and "0 < x" and "x < 16384"
  shows "real_of_int a \<le> 2 * to_double x \<and> 2 * to_double x \<le> real_of_int b"
proof -
  have x14: "\<bar>x\<bar> < 2 powi (13 + 1)" using assms(3,4) by simp
  have "2 powi (13 - 52) * of_int (a * 2 ^ 38) \<le> to_double x"
    by (rule to_double_ge_grid [OF _ x14]) (use assms in simp_all)
  moreover have "to_double x \<le> 2 powi (13 - 52) * of_int (b * 2 ^ 38)"
    by (rule to_double_le_grid [OF _ x14]) (use assms in simp_all)
  ultimately show ?thesis by simp
qed

lemma generateId_onto:
  assumes "1000 \<le> n" and "n \<le> 9999"
  shows "\<exists>r. is_double r \<and> 0 \<le> r \<and> r < 1 \<and> generateId r = n"
proof -
  define k where "k = n - 1000"
  define j where "j = ((2 * k + 1) * 2 ^ 52) div 9000"
  define r where "r = real_of_int j / 2 ^ 53"
  have k: "0 \<le> k" "k \<le> 8999" using assms by (simp_all add: k_def)
  define m where "m = (2 * k + 1) * 2 ^ 52"
  have jm: "j = m div 9000" by (simp add: j_def m_def)
  have "9000 * j \<le> m"
    unfolding jm using pos_mod_sign [of 9000 m] mult_div_mod_eq [of 9000 m] by linarith
  then have j1: "9000 * j \<le> (2 * k + 1) * 2 ^ 52" by (simp only: m_def)
  have "m < 9000 * j + 9000"
    unfolding jm using pos_mod_bound [of 9000 m] mult_div_mod_eq [of 9000 m] by linarith
  then have j2: "(2 * k + 1) * 2 ^ 52 < 9000 * j + 9000" by (simp only: m_def)
  have j0: "0 \<le> j" using k by (simp add: j_def pos_imp_zdiv_nonneg_iff)
  have j53: "j < 2 ^ 53" using j1 k by simp
  have r01: "0 \<le> r" "r < 1" using j0 j53 by (simp_all add: r_def)
  have "is_double r"
  proof (rule is_double_grid [of r "- 1" j])
    show "r = 2 powi (- 1 - 52) * real_of_int j" by (simp add: r_def)
    show "\<bar>r\<bar> < 2 powi (- 1 + 1)" using r01 by simp
    show "- 1022 \<le> (- 1::int)" by simp
  qed
  define p where "p = r * 9000"
  have p: "2 ^ 53 * p = real_of_int (9000 * j)" by (simp add: p_def r_def)
  have "real_of_int (9000 * j) \<le> real_of_int ((2 * k + 1) * 2 ^ 52)"
    using j1 by (simp only: of_int_le_iff)
  then have pu: "2 * p \<le> real_of_int (2 * k + 1)" using p by simp
  have "real_of_int ((2 * k + 1) * 2 ^ 52) < real_of_int (9000 * j + 9000)"
    using j2 by (simp only: of_int_less_iff)
  then have "real_of_int (2 * k + 1) * 2 ^ 52 < 2 ^ 53 * p + 9000" using p by simp
  then have pl: "real_of_int (2 * k) \<le> 2 * p" by simp
  have p0: "0 < p" using \<open>real_of_int (2 * k + 1) * 2 ^ 52 < 2 ^ 53 * p + 9000\<close> k by simp
  have p1: "p < 16384" using pu k by simp
  define tp where "tp = to_double p"
  have tp: "real_of_int (2 * k) \<le> 2 * tp" "2 * tp \<le> real_of_int (2 * k + 1)"
    using to_double_between [OF pl pu p0 p1] by (simp_all add: tp_def)
  define q where "q = 1000 + tp"
  have ql: "real_of_int (2 * n) \<le> 2 * q" using tp(1) by (simp add: q_def k_def)
  have qu: "2 * q \<le> real_of_int (2 * n + 1)" using tp(2) by (simp add: q_def k_def)
  have q0: "0 < q" using ql assms(1) by simp
  have q1: "q < 16384" using qu assms(2) by simp
  have "real_of_int (2 * n) \<le> 2 * to_double q" "2 * to_double q \<le> real_of_int (2 * n + 1)"
    using to_double_between [OF ql qu q0 q1] by simp_all
  then have "\<lfloor>to_double q\<rfloor> = n" by (simp add: floor_unique)
  then have "generateId r = n" by (simp add: generateId_def q_def tp_def p_def)
  then show ?thesis using \<open>is_double r\<close> r01 by blast
qed

lemma is_double_1000: "is_double 1000"
  by (rule is_double_grid [of 1000 9 "1000 * 2 ^ 43"]) simp_all

lemma generateId_0: "generateId 0 = 1000"
  using is_double_1000 by (simp add: generateId_def to_double_def is_double_def)

lemma to_double_eq:
  assumes "2 powi e \<le> \<bar>x\<bar>" and "\<bar>x\<bar> < 2 powi (e + 1)" and "- 1022 \<le> e"
  shows "to_double x = 2 powi (e - 52) * of_int (round_even (x / 2 powi (e - 52)))"
proof -
  have "0 < (2::real) powi e" by simp
  then have "0 < \<bar>x\<bar>" using assms(1) by linarith
  then have "x \<noteq> 0" by auto
  then show ?thesis by (simp add: to_double_def ulp_eq [OF assms])
qed

text \<open>
  The draw \<open>0.7\<close>, which is the double 6305039478318694 over 2 to the power 53: the
  product with 9000 is rounded up to 6300, and the id is 7300 (the floor of the exact sum
  would be 7299).
\<close>

lemma generateId_seven_tenths: "generateId (6305039478318694 / 2 ^ 53) = 7300"
proof -
  have "to_double (6305039478318694 / 2 ^ 53 * 9000) = 6300"
    by (subst to_double_eq [of 12]) (simp_all add: round_even_def)
  moreover have "to_double 7300 = 7300"
    by (subst to_double_eq [of 12]) (simp_all add: round_even_def)
  ultimately show ?thesis by (simp add: generateId_def)
qed

section \<open>sanitizeInput\<close>

lemma set_remove_ci: "set (remove_ci pat s) \<subseteq> set s"
proof (induction pat s rule: remove_ci.induct)
  case (1 pat)
  then show ?case by simp
next
  case (2 pat c cs)
  show ?case
  proof (cases "pat \<noteq> [] \<and> map ascii_lower (take (length pat) (c # cs)) = pat")
    case True
    then have "set (remove_ci pat (c # cs)) \<subseteq> set (drop (length pat) (c # cs))"
      using "2.IH"(1) by simp
    also have "\<dots> \<subseteq> set (c # cs)" by (rule set_drop_subset)
    finally show ?thesis .
  next
    case False
    then show ?thesis using "2.IH"(2) by auto
  qed
qed

lemma set_tl_subset: "set (tl xs) \<subseteq> set xs"
  by (cases xs) auto

lemma set_match_handler: "match_handler s = Some r \<Longrightarrow> set r \<subseteq> set s"
proof -
  assume m: "match_handler s = Some r"
  let ?r1 = "drop 2 s"
  let ?r2 = "dropWhile is_word ?r1"
  let ?r3 = "dropWhile is_space ?r2"
  have r: "r = tl ?r3" and ne: "?r3 \<noteq> []"
    using m by (auto simp: match_handler_def Let_def split: if_splits)
  have "set (tl ?r3) \<subseteq> set ?r3" by (rule set_tl_subset)
  then have "set r \<subseteq> set ?r3" by (simp only: r)
  also have "\<dots> \<subseteq> set ?r2" by (auto dest: set_dropWhileD)
  also have "\<dots> \<subseteq> set ?r1" by (auto dest: set_dropWhileD)
  also have "\<dots> \<subseteq> set s" by (rule set_drop_subset)
  finally show ?thesis .
qed

lemma set_remove_handlers: "set (remove_handlers s) \<subseteq> set s"
proof (induction s rule: remove_handlers.induct)
  case 1
  then show ?case by simp
next
  case (2 c cs)
  show ?case
  proof (cases "match_handler (c # cs)")
    case None
    then show ?thesis using "2.IH"(1) by auto
  next
    case (Some r)
    then have "set (remove_handlers (c # cs)) \<subseteq> set r"
      using "2.IH"(2) by simp
    then show ?thesis using set_match_handler [OF Some] by blast
  qed
qed

lemma set_trim: "set (trim s) \<subseteq> set s"
  by (auto simp: trim_def dest!: set_dropWhileD)

lemma length_capped:
  "int (length (if int (length s) > m then take (nat m) s else s)) \<le> max 0 m"
  by auto

lemma set_capped: "set (if int (length s) > m then take (nat m) s else s) \<subseteq> set s"
  by (auto dest: in_set_takeD)

text \<open>
  Claim C9, as amended. For every input value and every options object,
  \<open>sanitizeInput\<close> returns a string whose length is at most \<open>maxLength\<close> (1000 when
  absent) when that is not negative, and the empty string when it is negative; unless
  \<open>allowHTML\<close> is true the result has none of the characters \<open><\<close>, \<open>>\<close>, the double quote
  and the single quote; and an input that is not a string gives the empty string.
\<close>

theorem sanitizeInput_result:
  "int (length (sanitizeInput input options)) \<le>
     max 0 (case maxLength options of None \<Rightarrow> 1000 | Some m \<Rightarrow> m) \<and>
   (allowHTML options \<noteq> Some True \<longrightarrow>
      set (sanitizeInput input options) \<inter> {CHR ''<'', CHR ''>'', CHR 0x22, CHR 0x27} = {}) \<and>
   ((\<forall>s. input \<noteq> String s) \<longrightarrow> sanitizeInput input options = [])"
proof (cases input)
  case (String s)
  define m where "m = (case maxLength options of None \<Rightarrow> 1000 | Some m \<Rightarrow> m)"
  define s1 where "s1 = filter (\<lambda>c. \<not> is_control c) s"
  define s2 where "s2 =
     (if \<not> (case allowHTML options of None \<Rightarrow> False | Some b \<Rightarrow> b) then
        remove_handlers
          (remove_ci ''javascript:''
            (filter (\<lambda>c. c \<notin> {CHR ''<'', CHR ''>'', CHR 0x22, CHR 0x27}) (strip_tags s1)))
      else s1)"
  define s3 where "s3 =
     (if \<not> (case preserveNewlines options of None \<Rightarrow> True | Some b \<Rightarrow> b)
      then map (\<lambda>c. if c = CHR 0x0D \<or> c = CHR 0x0A then CHR '' '' else c) s2
      else s2)"
  define s4 where "s4 = trim s3"
  have res: "sanitizeInput input options =
      (if int (length s4) > m then take (nat m) s4 else s4)"
    unfolding sanitizeInput_def String Let_def m_def s1_def s2_def s3_def s4_def by simp
  have len: "int (length (sanitizeInput input options)) \<le> max 0 m"
    unfolding res by (rule length_capped)
  have clean: "set (sanitizeInput input options) \<inter>
      {CHR ''<'', CHR ''>'', CHR 0x22, CHR 0x27} = {}" if "allowHTML options \<noteq> Some True"
  proof -
    let ?bad = "{CHR ''<'', CHR ''>'', CHR 0x22, CHR 0x27}"
    have off: "\<not> (case allowHTML options of None \<Rightarrow> False | Some b \<Rightarrow> b)"
      using that by (cases "allowHTML options") auto
    let ?t = "filter (\<lambda>c. c \<notin> ?bad) (strip_tags s1)"
    have "s2 = remove_handlers (remove_ci ''javascript:'' ?t)"
      using off by (simp add: s2_def)
    then have "set s2 \<subseteq> set (remove_ci ''javascript:'' ?t)"
      using set_remove_handlers [of "remove_ci ''javascript:'' ?t"] by simp
    also have "\<dots> \<subseteq> set ?t" by (rule set_remove_ci)
    finally have "set s2 \<subseteq> set ?t" .
    moreover have "set ?t \<inter> ?bad = {}" by auto
    ultimately have c2: "set s2 \<inter> ?bad = {}" by blast
    have c3: "set s3 \<inter> ?bad = {}"
      using c2 unfolding s3_def by auto
    have "set (sanitizeInput input options) \<subseteq> set s4"
      unfolding res by (rule set_capped)
    also have "\<dots> \<subseteq> set s3" unfolding s4_def by (rule set_trim)
    finally show ?thesis using c3 by blast
  qed
  show ?thesis using len clean String by (simp add: m_def)
qed (simp_all add: sanitizeInput_def)

theorem sanitizeInput_result_witness:
  "int (length (sanitizeInput (String ''<b>Fix login</b>'') (no_options\<lparr>maxLength := Some 3\<rparr>))) \<le> 3 \<and>
   set (sanitizeInput (String ''<b>Fix login</b>'') (no_options\<lparr>maxLength := Some 3\<rparr>)) \<inter>
     {CHR ''<'', CHR ''>'', CHR 0x22, CHR 0x27} = {} \<and>
   sanitizeInput (Number 7) no_options = []"
  using sanitizeInput_result [of "String ''<b>Fix login</b>''" "no_options\<lparr>maxLength := Some 3\<rparr>"]
    sanitizeInput_result [of "Number 7" no_options]
  by (simp add: no_options_def)

text \<open>
  Claim C9 as first stated fails for a negative \<open>maxLength\<close>: \<open>substring(0, -1)\<close> is the
  empty string, and its length 0 is not at most \<open>-1\<close>.
\<close>

theorem sanitizeInput_negative_maxLength:
  "sanitizeInput (String ''abc'') (no_options\<lparr>maxLength := Some (- 1)\<rparr>) = [] \<and>
   \<not> int (length (sanitizeInput (String ''abc'') (no_options\<lparr>maxLength := Some (- 1)\<rparr>))) \<le> - 1"
  by (simp add: sanitizeInput_def no_options_def is_control_def trim_def is_space_def
      match_handler_def ascii_lower_def)

section \<open>The task operations on the store\<close>

lemma clampRating_eq: "clampRating r = max 0 (min 10 r)"
  by (simp add: clampRating_def sanitizeNumber_def rating_options_def)

lemma edit_list_found:
  assumes "find (\<lambda>t. task_id t = i) ts = Some t" and "task_id (g t) = i"
  shows "\<exists>ts'. edit_list i g ts = Some ts' \<and> find (\<lambda>t. task_id t = i) ts' = Some (g t)"
  using assms by (induction ts) (auto split: if_splits)

lemma edit_list_missing:
  assumes "find (\<lambda>t. task_id t = i) ts = None"
  shows "edit_list i g ts = None"
  using assms by (induction ts) (auto split: if_splits)

lemma find_append_cases:
  "find P (xs @ ys) = (case find P xs of Some x \<Rightarrow> Some x | None \<Rightarrow> find P ys)"
  by (induction xs) auto

lemma edit_columns_found:
  assumes "find (\<lambda>t. task_id t = i) (concat (map snd tss)) = Some t" and "task_id (g t) = i"
  shows "\<exists>tss'. edit_columns i g tss = Some tss' \<and>
     find (\<lambda>t. task_id t = i) (concat (map snd tss')) = Some (g t)"
  using assms
proof (induction tss)
  case Nil
  then show ?case by simp
next
  case (Cons cts rest)
  obtain c ts where cts: "cts = (c, ts)" by (cases cts)
  show ?case
  proof (cases "find (\<lambda>t. task_id t = i) ts")
    case None
    then have "find (\<lambda>t. task_id t = i) (concat (map snd rest)) = Some t"
      using Cons.prems(1) by (simp add: cts find_append_cases)
    then obtain rest' where r: "edit_columns i g rest = Some rest'"
      "find (\<lambda>t. task_id t = i) (concat (map snd rest')) = Some (g t)"
      using Cons.IH Cons.prems(2) by blast
    then show ?thesis
      using None edit_list_missing [OF None, of g] by (simp add: cts find_append_cases)
  next
    case (Some t0)
    then have "t0 = t" using Cons.prems(1) by (simp add: cts find_append_cases)
    then obtain ts' where "edit_list i g ts = Some ts'"
      "find (\<lambda>t. task_id t = i) ts' = Some (g t)"
      using edit_list_found [of i ts t g] Some Cons.prems(2) by blast
    then show ?thesis by (simp add: cts find_append_cases)
  qed
qed

text \<open>
  Claim C3. For a task id the store holds, \<open>updateTask\<close> with the patch \<open>{rating: 15}\<close>
  succeeds and the task read back has rating 10; with \<open>{rating: -3}\<close> it succeeds and the
  task read back has rating 0. The out-of-range rating is clamped, neither rejected nor
  stored.
\<close>

theorem rating_clamped_on_edit:
  assumes "findTask k i = Some t"
  shows "(\<exists>k' t'. updateTask i (no_data\<lparr>td_rating := Some 15\<rparr>) k = Inr k' \<and>
            findTask k' i = Some t' \<and> rating t' = Some 10) \<and>
         (\<exists>k' t'. updateTask i (no_data\<lparr>td_rating := Some (- 3)\<rparr>) k = Inr k' \<and>
            findTask k' i = Some t' \<and> rating t' = Some 0)"
proof -
  have edit: "\<exists>k' t'. updateTask i (no_data\<lparr>td_rating := Some r\<rparr>) k = Inr k' \<and>
      findTask k' i = Some t' \<and> rating t' = Some (clampRating r)" for r
  proof -
    let ?p = "no_data\<lparr>td_rating := Some (clampRating r)\<rparr>"
    have v: "validatePatch (no_data\<lparr>td_rating := Some r\<rparr>) = Inr ?p"
      by (simp add: validatePatch_def no_data_def)
    have same: "task_id (spread ?p t) = i"
      using assms by (auto simp: findTask_def spread_def no_data_def dest: find_Some_iff [THEN iffD1])
    obtain tss' where e: "edit_columns i (spread ?p) (tasks k) = Some tss'"
      "find (\<lambda>t. task_id t = i) (concat (map snd tss')) = Some (spread ?p t)"
      using edit_columns_found [of i "tasks k" t "spread ?p"] assms same
      by (auto simp: findTask_def)
    have "updateTask i (no_data\<lparr>td_rating := Some r\<rparr>) k = Inr (k\<lparr>tasks := tss'\<rparr>)"
      by (simp add: updateTask_def editTask_def v e(1))
    moreover have "findTask (k\<lparr>tasks := tss'\<rparr>) i = Some (spread ?p t)"
      using e(2) by (simp add: findTask_def)
    moreover have "rating (spread ?p t) = Some (clampRating r)"
      by (simp add: spread_def)
    ultimately show ?thesis by blast
  qed
  show ?thesis
    using edit [of 15] edit [of "- 3"] by (simp add: clampRating_eq)
qed

theorem rating_clamped_on_edit_witness:
  "(\<exists>k' t'. updateTask (NumId 1002) (no_data\<lparr>td_rating := Some 15\<rparr>) sample_board = Inr k' \<and>
            findTask k' (NumId 1002) = Some t' \<and> rating t' = Some 10) \<and>
   (\<exists>k' t'. updateTask (NumId 1002) (no_data\<lparr>td_rating := Some (- 3)\<rparr>) sample_board = Inr k' \<and>
            findTask k' (NumId 1002) = Some t' \<and> rating t' = Some 0)"
proof -
  have "findTask sample_board (NumId 1002) = Some T2"
    by (simp add: findTask_def sample_board_def T1_def T2_def T3_def sample_task_def)
  then show ?thesis by (rule rating_clamped_on_edit)
qed

lemma map_of_append_task:
  "map_of (map (\<lambda>(c', xs). if c' = c then (c', xs @ [t]) else (c', xs)) m) c' =
     (if c' = c then map_option (\<lambda>xs. xs @ [t]) (map_of m c) else map_of m c')"
  by (induction m) auto

text \<open>
  Claim C5, as amended. For a column the store holds and a \<open>taskData\<close> without \<open>priority\<close>,
  \<open>rating\<close> and \<open>createdAt\<close>, \<open>addNewTask\<close> succeeds and puts one task at the end of that
  column's list, leaving the tasks before it and the other columns as they were. The new
  task has priority Medium, rating 8.8 and the current time as \<open>createdAt\<close>; its id is the
  generated one when \<open>taskData\<close> has no \<open>id\<close>, and the \<open>id\<close> of \<open>taskData\<close> otherwise.
\<close>

theorem addNewTask_defaults:
  assumes "map_of (tasks k) c = Some ts"
    and "td_priority td = None" and "td_rating td = None" and "td_createdAt td = None"
  shows "\<exists>k' t. addNewTask r now c td k = Inr k' \<and>
     map_of (tasks k') c = Some (ts @ [t]) \<and>
     (\<forall>c'. c' \<noteq> c \<longrightarrow> map_of (tasks k') c' = map_of (tasks k) c') \<and>
     priority t = ''Medium'' \<and> rating t = Some (88 / 10) \<and> createdAt t = now \<and>
     task_id t = (case td_id td of None \<Rightarrow> NumId (generateId r) | Some v \<Rightarrow> v)"
proof -
  let ?n = "newTask r now td"
  have p: "priority ?n = ''Medium''" and ra: "rating ?n = Some (88 / 10)"
    and cr: "createdAt ?n = now"
    and i: "task_id ?n = (case td_id td of None \<Rightarrow> NumId (generateId r) | Some v \<Rightarrow> v)"
    using assms(2,3,4)
    by (simp_all add: newTask_def spread_def or_string_def or_number_def split: option.splits)
  let ?t = "?n\<lparr>rating := map_option clampRating (rating ?n),
               labels := map_option (take 10) (labels ?n)\<rparr>"
  have v: "validateTask ?n = Inr ?t"
    using p by (simp add: validateTask_def allowedPriorities_def)
  let ?k = "k\<lparr>tasks := map (\<lambda>(c', xs). if c' = c then (c', xs @ [?t]) else (c', xs)) (tasks k)\<rparr>"
  have run: "addNewTask r now c td k = Inr ?k"
    using assms(1) v by (simp add: addNewTask_def addTask_def)
  have "map_of (tasks ?k) c = Some (ts @ [?t])"
    using assms(1) by (simp add: map_of_append_task)
  moreover have "\<forall>c'. c' \<noteq> c \<longrightarrow> map_of (tasks ?k) c' = map_of (tasks k) c'"
    by (simp add: map_of_append_task)
  moreover have "priority ?t = ''Medium''" "rating ?t = Some (88 / 10)" "createdAt ?t = now"
    "task_id ?t = (case td_id td of None \<Rightarrow> NumId (generateId r) | Some v \<Rightarrow> v)"
    using p ra cr i by (simp_all add: clampRating_eq)
  ultimately show ?thesis using run by blast
qed

theorem addNewTask_defaults_witness:
  "\<exists>k' t. addNewTask 0 ''2024-05-01T09:00:00.000Z'' ''todo''
       (no_data\<lparr>td_title := Some ''Rotate keys''\<rparr>) sample_board = Inr k' \<and>
     map_of (tasks k') ''todo'' = Some ([T3] @ [t]) \<and>
     priority t = ''Medium'' \<and> rating t = Some (88 / 10) \<and>
     createdAt t = ''2024-05-01T09:00:00.000Z'' \<and> task_id t = NumId (generateId 0)"
proof -
  have "map_of (tasks sample_board) ''todo'' = Some [T3]"
    by (simp add: sample_board_def)
  then show ?thesis
    using addNewTask_defaults [of sample_board "''todo''" "[T3]"
        "no_data\<lparr>td_title := Some ''Rotate keys''\<rparr>" 0 "''2024-05-01T09:00:00.000Z''"]
    by (simp add: no_data_def) blast
qed

text \<open>
  Claim C5 as first stated fails for the id: a \<open>taskData\<close> without \<open>priority\<close>, \<open>rating\<close>
  and \<open>createdAt\<close> may carry an \<open>id\<close>, and the task added then has that id, here 7, not
  the generated one, here 1000.
\<close>

theorem addNewTask_supplied_id:
  "td_priority (no_data\<lparr>td_id := Some (NumId 7)\<rparr>) = None \<and>
   td_rating (no_data\<lparr>td_id := Some (NumId 7)\<rparr>) = None \<and>
   td_createdAt (no_data\<lparr>td_id := Some (NumId 7)\<rparr>) = None \<and>
   generateId 0 = 1000 \<and>
   (\<exists>k'. addNewTask 0 ''2024-05-01T09:00:00.000Z'' ''todo''
        (no_data\<lparr>td_id := Some (NumId 7)\<rparr>) sample_board = Inr k' \<and>
      map (map task_id) (map snd (tasks k')) =
        [[NumId 1001, NumId 1002], [NumId 1003, NumId 7]])"
  by (simp add: addNewTask_def addTask_def newTask_def spread_def validateTask_def
      allowedPriorities_def or_string_def no_data_def sample_board_def generateId_0
      T1_def T2_def T3_def sample_task_def)

text \<open>
  What \<open>addNewTask\<close> hands to the store is added to the column as it is built: the
  new task goes to the end of the column's list with the id it was given.
\<close>

lemma addNewTask_appends:
  assumes "map_of (tasks k) c = Some ts"
    and "\<forall>p. td_priority td = Some p \<longrightarrow> p \<in> set allowedPriorities"
  shows "\<exists>k' t. addNewTask r now c td k = Inr k' \<and>
     map_of (tasks k') c = Some (ts @ [t]) \<and> task_id t = task_id (newTask r now td)"
proof -
  let ?n = "newTask r now td"
  have p: "priority ?n \<in> set allowedPriorities"
    using assms(2)
    by (cases "td_priority td")
      (simp_all add: newTask_def spread_def or_string_def allowedPriorities_def)
  let ?t = "?n\<lparr>rating := map_option clampRating (rating ?n),
               labels := map_option (take 10) (labels ?n)\<rparr>"
  have v: "validateTask ?n = Inr ?t"
    using p by (simp add: validateTask_def)
  let ?k = "k\<lparr>tasks := map (\<lambda>(c', xs). if c' = c then (c', xs @ [?t]) else (c', xs)) (tasks k)\<rparr>"
  have run: "addNewTask r now c td k = Inr ?k"
    using assms(1) v by (simp add: addNewTask_def addTask_def)
  have "map_of (tasks ?k) c = Some (ts @ [?t])"
    using assms(1) by (simp add: map_of_append_task)
  moreover have "task_id ?t = task_id ?n" by simp
  ultimately show ?thesis using run by blast
qed

text \<open>
  Claim C10. When \<open>taskData\<close> has no \<open>id\<close> key, the id of the task built by \<open>addNewTask\<close> is
  an integer between 1000 and 9999 inclusive for every double in \<open>[0,1)\<close> that the random
  source may draw. The id is random: it is the draw that decides it, and every integer
  from 1000 to 9999 is the id for some draw. It is not checked against the ids in use:
  whatever tasks a column of the store holds, for a task among them whose id is in that
  range some draw makes \<open>addNewTask\<close> add a task with the same id to the column.
\<close>

theorem addNewTask_generated_id:
  assumes "td_id taskData = None"
  shows "(\<forall>r. is_double r \<and> 0 \<le> r \<and> r < 1 \<longrightarrow>
        (\<exists>n. task_id (newTask r now taskData) = NumId n \<and> 1000 \<le> n \<and> n \<le> 9999)) \<and>
     (\<forall>n. 1000 \<le> n \<and> n \<le> 9999 \<longrightarrow>
        (\<exists>r. is_double r \<and> 0 \<le> r \<and> r < 1 \<and> task_id (newTask r now taskData) = NumId n)) \<and>
     (\<forall>k columnId ts t0 n.
        map_of (tasks k) columnId = Some ts \<and> t0 \<in> set ts \<and> task_id t0 = NumId n \<and>
        1000 \<le> n \<and> n \<le> 9999 \<and>
        (\<forall>p. td_priority taskData = Some p \<longrightarrow> p \<in> set allowedPriorities) \<longrightarrow>
        (\<exists>r k' t. is_double r \<and> 0 \<le> r \<and> r < 1 \<and>
           addNewTask r now columnId taskData k = Inr k' \<and>
           map_of (tasks k') columnId = Some (ts @ [t]) \<and> task_id t = task_id t0))"
proof -
  have i: "task_id (newTask r now taskData) = NumId (generateId r)" for r
    using assms by (simp add: newTask_def spread_def)
  have range: "\<forall>r. is_double r \<and> 0 \<le> r \<and> r < 1 \<longrightarrow>
      (\<exists>n. task_id (newTask r now taskData) = NumId n \<and> 1000 \<le> n \<and> n \<le> 9999)"
    using generateId_range by (simp add: i)
  have onto: "\<exists>r. is_double r \<and> 0 \<le> r \<and> r < 1 \<and> task_id (newTask r now taskData) = NumId n"
    if "1000 \<le> n" and "n \<le> 9999" for n
    using generateId_onto [OF that] by (simp add: i)
  have dup: "\<exists>r k' t. is_double r \<and> 0 \<le> r \<and> r < 1 \<and>
      addNewTask r now columnId taskData k = Inr k' \<and>
      map_of (tasks k') columnId = Some (ts @ [t]) \<and> task_id t = task_id t0"
    if m: "map_of (tasks k) columnId = Some ts" and t0: "task_id t0 = NumId n"
      and n: "1000 \<le> n" "n \<le> 9999"
      and pr: "\<forall>p. td_priority taskData = Some p \<longrightarrow> p \<in> set allowedPriorities"
    for k :: kanban and columnId ts t0 n
  proof -
    obtain r where r: "is_double r" "0 \<le> r" "r < 1"
      "task_id (newTask r now taskData) = NumId n"
      using onto [OF n] by blast
    obtain k' t where "addNewTask r now columnId taskData k = Inr k'"
      "map_of (tasks k') columnId = Some (ts @ [t])"
      "task_id t = task_id (newTask r now taskData)"
      using addNewTask_appends [OF m pr, of r now] by blast
    then show ?thesis using r t0 by auto
  qed
  show ?thesis
  proof (intro conjI allI impI)
    fix r assume "is_double r \<and> 0 \<le> r \<and> r < 1"
    then show "\<exists>n. task_id (newTask r now taskData) = NumId n \<and> 1000 \<le> n \<and> n \<le> 9999"
      using range by blast
  next
    fix n :: int assume "1000 \<le> n \<and> n \<le> 9999"
    then show "\<exists>r. is_double r \<and> 0 \<le> r \<and> r < 1 \<and> task_id (newTask r now taskData) = NumId n"
      using onto by blast
  next
    fix k :: kanban and columnId ts t0 n
    assume "map_of (tasks k) columnId = Some ts \<and> t0 \<in> set ts \<and> task_id t0 = NumId n \<and>
        1000 \<le> n \<and> n \<le> 9999 \<and>
        (\<forall>p. td_priority taskData = Some p \<longrightarrow> p \<in> set allowedPriorities)"
    then show "\<exists>r k' t. is_double r \<and> 0 \<le> r \<and> r < 1 \<and>
           addNewTask r now columnId taskData k = Inr k' \<and>
           map_of (tasks k') columnId = Some (ts @ [t]) \<and> task_id t = task_id t0"
      using dup [of k columnId ts t0 n] by blast
  qed
qed

theorem addNewTask_generated_id_witness:
  "td_id no_data = None \<and> is_double 0 \<and>
   (\<exists>n. task_id (newTask 0 ''2024-01-01T00:00:00.000Z'' no_data) = NumId n \<and>
      1000 \<le> n \<and> n \<le> 9999) \<and>
   (\<exists>r. is_double r \<and> 0 \<le> r \<and> r < 1 \<and>
      task_id (newTask r ''2024-01-01T00:00:00.000Z'' no_data) = NumId 9999) \<and>
   map_of (tasks sample_board) ''backlog'' = Some [T1, T2] \<and> task_id T1 = NumId 1001 \<and>
   (\<exists>r k' t. is_double r \<and> 0 \<le> r \<and> r < 1 \<and>
      addNewTask r ''2024-01-01T00:00:00.000Z'' ''backlog'' no_data sample_board = Inr k' \<and>
      map_of (tasks k') ''backlog'' = Some ([T1, T2] @ [t]) \<and> task_id t = task_id T1)"
proof -
  have a: "td_id no_data = None" and p: "td_priority no_data = None"
    by (simp_all add: no_data_def)
  have z: "is_double 0" by (simp add: is_double_def to_double_def)
  have m: "map_of (tasks sample_board) ''backlog'' = Some [T1, T2]"
    by (simp add: sample_board_def)
  have t: "task_id T1 = NumId 1001" and s: "T1 \<in> set [T1, T2]"
    by (simp_all add: T1_def sample_task_def)
  note th = addNewTask_generated_id [OF a, of "''2024-01-01T00:00:00.000Z''"]
  have 1: "\<exists>n. task_id (newTask 0 ''2024-01-01T00:00:00.000Z'' no_data) = NumId n \<and>
      1000 \<le> n \<and> n \<le> 9999"
    using th z by simp
  have 2: "\<exists>r. is_double r \<and> 0 \<le> r \<and> r < 1 \<and>
      task_id (newTask r ''2024-01-01T00:00:00.000Z'' no_data) = NumId 9999"
    using th by simp
  have 3: "\<exists>r k' t. is_double r \<and> 0 \<le> r \<and> r < 1 \<and>
      addNewTask r ''2024-01-01T00:00:00.000Z'' ''backlog'' no_data sample_board = Inr k' \<and>
      map_of (tasks k') ''backlog'' = Some ([T1, T2] @ [t]) \<and> task_id t = task_id T1"
  proof -
    have "map_of (tasks sample_board) ''backlog'' = Some [T1, T2] \<and> T1 \<in> set [T1, T2] \<and>
        task_id T1 = NumId 1001 \<and> (1000::int) \<le> 1001 \<and> (1001::int) \<le> 9999 \<and>
        (\<forall>p. td_priority no_data = Some p \<longrightarrow> p \<in> set allowedPriorities)"
      using m s t p by simp
    then show ?thesis using th by blast
  qed
  show ?thesis using a z 1 2 3 m t by blast
qed

lemma capped_append_task:
  assumes "list_all Q (concat (map snd m))" and "Q t"
  shows "list_all Q
     (concat (map snd (map (\<lambda>(c', xs). if c' = c then (c', xs @ [t]) else (c', xs)) m)))"
  using assms by (induction m) auto

lemma edit_list_keeps:
  assumes "edit_list i g ts = Some ts'" and "list_all Q ts" and "\<And>t. Q t \<Longrightarrow> Q (g t)"
  shows "list_all Q ts'"
  using assms by (induction ts arbitrary: ts') (auto split: if_splits)

lemma edit_columns_keeps:
  assumes "edit_columns i g tss = Some tss'" and "list_all Q (concat (map snd tss))"
    and "\<And>t. Q t \<Longrightarrow> Q (g t)"
  shows "list_all Q (concat (map snd tss'))"
  using assms
proof (induction tss arbitrary: tss')
  case Nil
  then show ?case by simp
next
  case (Cons cts rest)
  obtain c ts where cts: "cts = (c, ts)" by (cases cts)
  show ?case
  proof (cases "edit_list i g ts")
    case None
    then obtain rest' where r: "edit_columns i g rest = Some rest'" "tss' = (c, ts) # rest'"
      using Cons.prems(1) by (auto simp: cts)
    have "list_all Q (concat (map snd rest'))"
      using Cons.IH [OF r(1)] Cons.prems(2,3) by (simp add: cts)
    then show ?thesis using Cons.prems(2) by (simp add: r(2) cts)
  next
    case (Some ts')
    then have t: "tss' = (c, ts') # rest" using Cons.prems(1) by (simp add: cts)
    have "list_all Q ts" using Cons.prems(2) by (simp add: cts)
    then have "list_all Q ts'"
      using edit_list_keeps [of i g ts ts' Q] Some Cons.prems(3) by blast
    then show ?thesis using Cons.prems(2) by (simp add: t cts)
  qed
qed

lemma sanitizeTaskData_labels:
  assumes "td_labels (sanitizeTaskData raw) = Some ls"
  shows "length ls \<le> 10"
  using assms by (auto simp: sanitizeTaskData_def no_data_def split: option.splits)

lemma newTask_labels:
  assumes "td_labels taskData = Some ls"
  shows "labels (newTask r now taskData) = Some ls"
  using assms by (simp add: newTask_def spread_def)

text \<open>
  Claim C8. \<open>sanitizeTaskData\<close> returns at most 10 labels. \<open>addNewTask\<close> itself hands the
  labels of \<open>taskData\<close> to the store as they are (\<open>newTask_labels\<close>), and the store cuts
  them: when no stored task has more than 10 labels, none has after a successful
  \<open>addNewTask\<close> or \<open>updateTask\<close>, whatever labels array, of any length, the caller supplies
  in \<open>taskData\<close> or in the patch.
\<close>

theorem label_cap_preserved:
  assumes "labels_capped k"
  shows "(\<forall>ls. td_labels (sanitizeTaskData raw) = Some ls \<longrightarrow> length ls \<le> 10) \<and>
         (\<forall>k'. addNewTask r now c taskData k = Inr k' \<longrightarrow> labels_capped k') \<and>
         (\<forall>k'. updateTask i patch k = Inr k' \<longrightarrow> labels_capped k')"
proof -
  let ?Q = "\<lambda>t. case labels t of None \<Rightarrow> True | Some ls \<Rightarrow> length ls \<le> 10"
  have add: "labels_capped k'" if a: "addNewTask r now c taskData k = Inr k'" for k'
  proof -
    obtain t' where v: "validateTask (newTask r now taskData) = Inr t'"
      and k': "k' = k\<lparr>tasks := map (\<lambda>(c', xs). if c' = c then (c', xs @ [t']) else (c', xs))
          (tasks k)\<rparr>"
      using a by (auto simp: addNewTask_def addTask_def split: option.splits sum.splits)
    have "?Q t'"
      using v by (auto simp: validateTask_def split: if_splits option.splits)
    then show ?thesis
      using assms capped_append_task [of ?Q "tasks k" t' c] by (simp add: labels_capped_def k')
  qed
  have upd: "labels_capped k'" if u: "updateTask i patch k = Inr k'" for k'
  proof -
    obtain p tss where v: "validatePatch patch = Inr p"
      and e: "edit_columns i (spread p) (tasks k) = Some tss" and k': "k' = k\<lparr>tasks := tss\<rparr>"
      using u by (auto simp: updateTask_def editTask_def split: option.splits sum.splits)
    have short: "\<And>ls. td_labels p = Some ls \<Longrightarrow> length ls \<le> 10"
      using v by (auto simp: validatePatch_def split: if_splits option.splits)
    have "\<And>t. ?Q t \<Longrightarrow> ?Q (spread p t)"
      using short by (auto simp: spread_def split: option.splits)
    then have "list_all ?Q (concat (map snd tss))"
      using edit_columns_keeps [OF e, of ?Q] assms by (simp add: labels_capped_def)
    then show ?thesis by (simp add: labels_capped_def k')
  qed
  show ?thesis using add upd sanitizeTaskData_labels by blast
qed

theorem label_cap_preserved_witness:
  "labels_capped sample_board \<and>
   (\<exists>ls. td_labels (sanitizeTaskData (Some
        \<lparr>raw_title = String ''Rotate keys'', raw_details = Undefined, raw_priority = String ''High'',
         raw_rating = Some (Finite 7), raw_labels = Some (replicate 12 (String ''lbl-A'')),
         raw_status = Undefined\<rparr>)) = Some ls \<and> length ls \<le> 10) \<and>
   (\<exists>k'. addNewTask 0 ''2024-05-01T09:00:00.000Z'' ''todo''
        (no_data\<lparr>td_labels := Some (replicate 12 ''lbl-A'')\<rparr>) sample_board = Inr k' \<and>
      labels_capped k') \<and>
   (\<exists>k'. updateTask (NumId 1001) (no_data\<lparr>td_labels := Some (replicate 12 ''lbl-A'')\<rparr>)
        sample_board = Inr k' \<and>
      labels_capped k')"
proof -
  let ?raw = "Some \<lparr>raw_title = String ''Rotate keys'', raw_details = Undefined,
     raw_priority = String ''High'', raw_rating = Some (Finite 7),
     raw_labels = Some (replicate 12 (String ''lbl-A'')), raw_status = Undefined\<rparr>"
  have c: "labels_capped sample_board"
    by (simp add: labels_capped_def sample_board_def T1_def T2_def T3_def sample_task_def)
  have s: "\<exists>ls. td_labels (sanitizeTaskData ?raw) = Some ls"
    by (simp add: sanitizeTaskData_def)
  have a: "\<exists>k'. addNewTask 0 ''2024-05-01T09:00:00.000Z'' ''todo''
        (no_data\<lparr>td_labels := Some (replicate 12 ''lbl-A'')\<rparr>) sample_board = Inr k'"
    by (simp add: addNewTask_def addTask_def newTask_def spread_def validateTask_def
        allowedPriorities_def or_string_def no_data_def sample_board_def)
  have u: "\<exists>k'. updateTask (NumId 1001) (no_data\<lparr>td_labels := Some (replicate 12 ''lbl-A'')\<rparr>)
        sample_board = Inr k'"
    by (simp add: updateTask_def editTask_def validatePatch_def no_data_def sample_board_def
        T1_def sample_task_def)
  show ?thesis
    using c s a u label_cap_preserved [OF c, of ?raw] by blast
qed

section \<open>login and signup\<close>

lemma sanitizeEmail_example: "sanitizeEmail (String ''bob@example.com'') = ''bob@example.com''"
  by (simp add: sanitizeEmail_def toLowerCase_def lower_char_def email_char_def trim_def
      is_space_def emailRegex_test_def is_alpha_def is_digit_def)

lemma sanitizeInput_password_example:
  "sanitizeInput (String ''builder1'') password_options = ''builder1''"
  by (simp add: sanitizeInput_def password_options_def is_control_def trim_def is_space_def
      match_handler_def ascii_lower_def)

text \<open>
  Claim C6, as amended. When \<open>login\<close> is rejected for an invalid email, a missing password,
  an unregistered user or a wrong password, the kanban slice is the one it was before the
  thunk began. However \<open>login\<close> is rejected, the kanban slice is the one it was before or
  that one after \<open>resetKanbanState\<close>: a failure caught after the reset for a change of
  user leaves the reset in place. \<open>signup\<close>, however it settles, leaves the kanban slice as
  it was.
\<close>

theorem rejected_login_keeps_store:
  "(\<forall>msg. fst (login env email password st) = Rejected msg \<longrightarrow>
      msg \<in> {''Please enter a valid email address'', ''Password is required'',
              ''User not registered. Please sign up first.'', ''Invalid password''} \<longrightarrow>
      snd (login env email password st) = kanban_state st) \<and>
   (\<forall>msg. fst (login env email password st) = Rejected msg \<longrightarrow>
      snd (login env email password st) = kanban_state st \<or>
      snd (login env email password st) = resetKanbanState env (kanban_state st)) \<and>
   fst (snd (signup env now_ms now email password st)) = kanban_state st"
proof -
  have r: "snd (login env email password st) = kanban_state st \<or>
      snd (login env email password st) = resetKanbanState env (kanban_state st)"
    if "fst (login env email password st) = Rejected msg" for msg
    using that
    by (auto simp: login_def Let_def split: option.splits if_splits load_result.splits)
  have s: "fst (snd (signup env now_ms now email password st)) = kanban_state st"
    by (simp add: signup_def Let_def split: option.splits)
  have l: "snd (login env email password st) = kanban_state st"
    if "fst (login env email password st) = Rejected msg"
      and "msg \<noteq> ''Login failed. Please try again.''" for msg
    using that
    by (auto simp: login_def Let_def split: option.splits if_splits load_result.splits)
  show ?thesis using s l r by auto
qed

theorem rejected_login_keeps_store_witness:
  "fst (login sample_auth_env (String ''bob@example.com'') (String ''wrong'') alice_session) =
     Rejected ''Invalid password'' \<and>
   snd (login sample_auth_env (String ''bob@example.com'') (String ''wrong'') alice_session) =
     sample_board \<and>
   fst (snd (signup sample_auth_env 3 ''2024-01-03T00:00:00.000Z'' (String ''bob@example.com'')
     (String ''wrong'') alice_session)) = sample_board"
proof -
  have e: "sanitizeEmail (String ''bob@example.com'') = ''bob@example.com''"
    by (rule sanitizeEmail_example)
  have p: "sanitizeInput (String ''wrong'') password_options = ''wrong''"
    by (simp add: sanitizeInput_def password_options_def is_control_def trim_def is_space_def
        match_handler_def ascii_lower_def)
  have r: "fst (login sample_auth_env (String ''bob@example.com'') (String ''wrong'') alice_session) =
     Rejected ''Invalid password''"
    by (simp add: login_def e p sample_auth_env_def)
  show ?thesis
    using r rejected_login_keeps_store [of sample_auth_env "String ''bob@example.com''"
        "String ''wrong''" alice_session 3 "''2024-01-03T00:00:00.000Z''"]
    by (simp add: alice_session_def)
qed

text \<open>
  Claim C6 as first stated fails for a failure caught partway: with one user signed in,
  another logs in with the right password, the store is reset for the change of user,
  \<open>loadPersistedState\<close> returns \<open>null\<close>, the destructuring throws, and the thunk is rejected
  with the store reset.
\<close>

theorem login_failure_after_reset:
  "fst (login sample_auth_env (String ''bob@example.com'') (String ''builder1'') alice_session) =
     Rejected ''Login failed. Please try again.'' \<and>
   snd (login sample_auth_env (String ''bob@example.com'') (String ''builder1'') alice_session) =
     seed_board \<and>
   kanban_state alice_session = sample_board \<and>
   seed_board \<noteq> sample_board"
proof -
  have e: "sanitizeEmail (String ''bob@example.com'') = ''bob@example.com''"
    by (rule sanitizeEmail_example)
  have p: "sanitizeInput (String ''builder1'') password_options = ''builder1''"
    by (rule sanitizeInput_password_example)
  have "login sample_auth_env (String ''bob@example.com'') (String ''builder1'') alice_session =
     (Rejected ''Login failed. Please try again.'', seed_board)"
    by (simp add: login_def e p sample_auth_env_def alice_session_def)
  moreover have "seed_board \<noteq> sample_board"
    by (simp add: seed_board_def sample_board_def)
  ultimately show ?thesis by (simp add: alice_session_def)
qed

end
